theory Spec2Isabelle
  imports Main
begin

section \<open>Python strings\<close>

text \<open>
  A Python \<open>str\<close> is a sequence of Unicode code points, and \<open>len\<close> counts code points.
  A string is therefore a list of code points (natural numbers); \<open>u\<close> turns an ASCII
  literal into such a list, and the non-ASCII letters of the source are written as
  their code points (\<open>233\<close> is e-acute, \<open>171\<close> and \<open>187\<close> are the guillemets).
\<close>

type_synonym ustr = "nat list"

definition u :: "string \<Rightarrow> ustr" where
  "u = map of_char"

definition LBRACE :: nat where "LBRACE = 123"
definition RBRACE :: nat where "RBRACE = 125"
definition BAR :: nat where "BAR = 124"
definition EQUALS :: nat where "EQUALS = 61"
definition LBRACK :: nat where "LBRACK = 91"
definition RBRACK :: nat where "RBRACK = 93"

text \<open>
  \<open>str.isspace\<close> for one code point, which is also the class \<open>\s\<close> of \<open>re\<close> on a
  \<open>str\<close> pattern: the ASCII controls 9-13 and 28-31, the space, and the Unicode
  white space beyond ASCII.
\<close>

definition py_isspace :: "nat \<Rightarrow> bool" where
  "py_isspace c =
     ((9 \<le> c \<and> c \<le> 13) \<or> (28 \<le> c \<and> c \<le> 32) \<or> c = 133 \<or> c = 160 \<or> c = 5760
      \<or> (8192 \<le> c \<and> c \<le> 8202) \<or> c = 8232 \<or> c = 8233 \<or> c = 8239 \<or> c = 8287
      \<or> c = 12288)"

text \<open>\<open>s.strip()\<close> and \<open>s.strip(chars)\<close>: drop the leading and the trailing run.\<close>

definition strip_by :: "(nat \<Rightarrow> bool) \<Rightarrow> ustr \<Rightarrow> ustr" where
  "strip_by P s = rev (dropWhile P (rev (dropWhile P s)))"

definition py_strip :: "ustr \<Rightarrow> ustr" where
  "py_strip s = strip_by py_isspace s"

definition py_strip_chars :: "ustr \<Rightarrow> ustr \<Rightarrow> ustr" where
  "py_strip_chars chars s = strip_by (\<lambda>c. c \<in> set chars) s"

text \<open>\<open>s.split(sep)\<close> for a one-character separator: never the empty list.\<close>

fun py_split :: "nat \<Rightarrow> ustr \<Rightarrow> ustr list" where
  "py_split sep [] = [[]]"
| "py_split sep (c # cs) =
     (if c = sep then [] # py_split sep cs
      else (case py_split sep cs of
              [] \<Rightarrow> [[c]]
            | p # ps \<Rightarrow> (c # p) # ps))"

text \<open>\<open>s.split(sep, 1)\<close> on a string that contains \<open>sep\<close>: the text before the first
  separator and the text after it.\<close>

definition py_split1 :: "nat \<Rightarrow> ustr \<Rightarrow> ustr \<times> ustr" where
  "py_split1 sep s = (takeWhile (\<lambda>c. c \<noteq> sep) s, drop 1 (dropWhile (\<lambda>c. c \<noteq> sep) s))"

datatype py_error = IndexError | KeyError

text \<open>\<open>xs[i]\<close> for a non-negative index: \<open>IndexError\<close> out of range.\<close>

definition py_index :: "'a list \<Rightarrow> nat \<Rightarrow> py_error + 'a" where
  "py_index xs i = (if i < length xs then Inr (xs ! i) else Inl IndexError)"

definition bindE :: "py_error + 'a \<Rightarrow> ('a \<Rightarrow> py_error + 'b) \<Rightarrow> py_error + 'b" where
  "bindE m f = (case m of Inl e \<Rightarrow> Inl e | Inr v \<Rightarrow> f v)"

text \<open>\<open>d.get(k, default)\<close>.\<close>

definition dict_get :: "('k \<rightharpoonup> 'v) \<Rightarrow> 'k \<Rightarrow> 'v \<Rightarrow> 'v" where
  "dict_get d k dflt = (case d k of None \<Rightarrow> dflt | Some v \<Rightarrow> v)"

section \<open>The template parser and interpreter: \<open>parse_wiki_template\<close>\<close>

text \<open>The language table \<open>lang_names\<close> of the source, in its order.\<close>

definition lang_names :: "(ustr \<times> ustr) list" where
  "lang_names =
     [(u ''en'', u ''anglais''), (u ''la'', u ''latin''),
      (u ''la-new'', u ''latin moderne''),
      (u ''la-med'', u ''latin m'' @ [233] @ u ''di'' @ [233] @ u ''val''),
      (u ''grc'', u ''grec ancien''), (u ''grc-koi'', u ''grec koin'' @ [232]),
      (u ''el'', u ''grec''),
      (u ''fr'', u ''fran'' @ [231] @ u ''ais''),
      (u ''fro'', u ''ancien fran'' @ [231] @ u ''ais''),
      (u ''frm'', u ''moyen fran'' @ [231] @ u ''ais''),
      (u ''ang'', u ''vieil anglais''), (u ''enm'', u ''moyen anglais''),
      (u ''de'', u ''allemand''), (u ''goh'', u ''vieux haut allemand''),
      (u ''gmh'', u ''moyen haut allemand''),
      (u ''non'', u ''vieux norrois''), (u ''gem-pro'', u ''proto-germanique''),
      (u ''ine-pro'', u ''proto-indo-europ'' @ [233] @ u ''en''),
      (u ''it'', u ''italien''), (u ''es'', u ''espagnol''), (u ''pt'', u ''portugais''),
      (u ''ar'', u ''arabe''), (u ''he'', u ''h'' @ [233] @ u ''breu''),
      (u ''sa'', u ''sanskrit''), (u ''fa'', u ''persan''),
      (u ''nl'', u ''n'' @ [233] @ u ''erlandais''),
      (u ''dum'', u ''moyen n'' @ [233] @ u ''erlandais'')]"

text \<open>\<open>lang_names.get(code, code)\<close>.\<close>

definition lang_get :: "ustr \<Rightarrow> ustr" where
  "lang_get code = dict_get (map_of lang_names) code code"

text \<open>
  The loop over \<open>parts[1:]\<close>: a part with \<open>=\<close> is stored under its key in the dictionary
  \<open>named_params\<close> (an assignment \<open>named_params[key] = value\<close>), any other part is
  appended to \<open>positional_params\<close>.
\<close>

fun parse_params :: "ustr list \<Rightarrow> (ustr \<rightharpoonup> ustr) \<Rightarrow> ustr list \<Rightarrow> (ustr \<rightharpoonup> ustr) \<times> ustr list" where
  "parse_params [] named_params positional_params = (named_params, positional_params)"
| "parse_params (part # parts) named_params positional_params =
     (if EQUALS \<in> set part then
        (case py_split1 EQUALS part of
           (key, val) \<Rightarrow>
             parse_params parts (named_params(py_strip key \<mapsto> py_strip val)) positional_params)
      else parse_params parts named_params (positional_params @ [py_strip part]))"

definition etyl :: ustr where "etyl = [233] @ u ''tyl''"
definition ref_fr :: ustr where "ref_fr = u ''r'' @ [233] @ u ''f''"

text \<open>The names the dispatch of \<open>parse_wiki_template\<close> tests for.\<close>

definition recognized_names :: "ustr list" where
  "recognized_names =
     [etyl, u ''polytonique'', u ''date'', u ''R'', ref_fr, u ''bor'', u ''borrowed'',
      u ''der'', u ''derived'', u ''inh'', u ''inherited'', u ''m'', u ''mention'', u ''l'',
      u ''link'', u ''lien'', u ''cog'', u ''cognate'']"

text \<open>
  The \<open>if\<close>/\<open>elif\<close> chain of \<open>parse_wiki_template\<close> on the template name, the
  dictionary of named parameters and the list of positional parameters. A branch whose
  inner test fails falls through to the final \<open>return ''\<close>.
\<close>

definition interpret_template :: "ustr \<Rightarrow> (ustr \<rightharpoonup> ustr) \<Rightarrow> ustr list \<Rightarrow> py_error + ustr" where
  "interpret_template template_name named_params positional_params =
    (if template_name = etyl then
       (if positional_params \<noteq> [] then
          bindE (py_index positional_params 0) (\<lambda>lang_code.
          let lang = lang_get lang_code;
              word0 = dict_get named_params (u ''mot'') []
          in bindE (if word0 = [] \<and> length positional_params \<ge> 3
                    then py_index positional_params 2 else Inr word0) (\<lambda>word.
          let tr = dict_get named_params (u ''tr'') []
          in if word \<noteq> [] then
               (if tr \<noteq> [] then
                  Inr (u ''*'' @ lang @ u ''* *'' @ word @ u ''* ('' @ tr @ u '')'')
                else Inr (u ''*'' @ lang @ u ''* *'' @ word @ u ''*''))
             else Inr (u ''*'' @ lang @ u ''*'')))
        else Inr [])
     else if template_name = u ''polytonique'' then
       (if positional_params \<noteq> [] then
          bindE (py_index positional_params 0) (\<lambda>w0.
          let word = py_strip_chars [LBRACK, RBRACK] w0
          in bindE (if length positional_params \<ge> 2
                    then py_index positional_params 1 else Inr []) (\<lambda>tr.
             bindE (if length positional_params \<ge> 3
                    then py_index positional_params 2 else Inr []) (\<lambda>meaning.
          if meaning \<noteq> [] then
            Inr (u ''*'' @ word @ u ''* ('' @ tr @ u '', '' @ [171] @ u '' '' @ meaning
                 @ u '' '' @ [187] @ u '')'')
          else if tr \<noteq> [] then Inr (u ''*'' @ word @ u ''* ('' @ tr @ u '')'')
          else Inr (u ''*'' @ word @ u ''*''))))
        else Inr [])
     else if template_name = u ''date'' then Inr []
     else if template_name \<in> set [u ''R'', ref_fr] then Inr []
     else if template_name \<in> set [u ''bor'', u ''borrowed''] then
       (if length positional_params \<ge> 3 then
          bindE (py_index positional_params 1) (\<lambda>code.
          let lang = lang_get code
          in bindE (py_index positional_params 2) (\<lambda>word.
          Inr (u ''*'' @ lang @ u ''* *'' @ word @ u ''*'')))
        else if length positional_params \<ge> 2 then
          bindE (py_index positional_params 1) (\<lambda>code.
          let lang = lang_get code
          in Inr (u ''*'' @ lang @ u ''*''))
        else Inr [])
     else if template_name \<in> set [u ''der'', u ''derived''] then
       (if length positional_params \<ge> 3 then
          bindE (py_index positional_params 1) (\<lambda>code.
          let lang = lang_get code
          in bindE (py_index positional_params 2) (\<lambda>word.
          Inr (u ''*'' @ lang @ u ''* *'' @ word @ u ''*'')))
        else if length positional_params \<ge> 2 then
          bindE (py_index positional_params 1) (\<lambda>code.
          let lang = lang_get code
          in Inr (u ''*'' @ lang @ u ''*''))
        else Inr [])
     else if template_name \<in> set [u ''inh'', u ''inherited''] then
       (if length positional_params \<ge> 3 then
          bindE (py_index positional_params 1) (\<lambda>code.
          let lang = lang_get code
          in bindE (py_index positional_params 2) (\<lambda>word.
          Inr (u ''*'' @ lang @ u ''* *'' @ word @ u ''*'')))
        else Inr [])
     else if template_name \<in> set [u ''m'', u ''mention'', u ''l'', u ''link'', u ''lien''] then
       (if length positional_params \<ge> 2 then
          bindE (py_index positional_params 0) (\<lambda>code.
          let lang = lang_get code
          in bindE (py_index positional_params 1) (\<lambda>word.
             bindE (if length positional_params \<ge> 4
                    then py_index positional_params 3 else Inr []) (\<lambda>gloss.
          if gloss \<noteq> [] then
            Inr (u ''*'' @ lang @ u ''* *'' @ word @ u ''* '' @ [171] @ u '' '' @ gloss
                 @ u '' '' @ [187])
          else Inr (u ''*'' @ lang @ u ''* *'' @ word @ u ''*''))))
        else Inr [])
     else if template_name \<in> set [u ''cog'', u ''cognate''] then
       (if length positional_params \<ge> 2 then
          bindE (py_index positional_params 0) (\<lambda>code.
          let lang = lang_get code
          in bindE (py_index positional_params 1) (\<lambda>word.
          Inr (u ''*'' @ lang @ u ''* *'' @ word @ u ''*'')))
        else Inr [])
     else Inr [])"

text \<open>
  \<open>parse_wiki_template\<close>: strip the braces, split on the bar, take the name from the
  first part and the parameters from the others, then dispatch.
\<close>

definition parse_wiki_template :: "ustr \<Rightarrow> py_error + ustr" where
  "parse_wiki_template template =
     (let template' = py_strip_chars [LBRACE, RBRACE] template;
          parts = py_split BAR template'
      in if parts = [] then Inr []
         else bindE (py_index parts 0) (\<lambda>name0.
              let template_name = py_strip name0
              in (case parse_params (drop 1 parts) Map.empty [] of
                    (named_params, positional_params) \<Rightarrow>
                      interpret_template template_name named_params positional_params)))"

text \<open>The name \<open>parse_wiki_template\<close> dispatches on: \<open>parts[0].strip()\<close>.\<close>

definition template_name_of :: "ustr \<Rightarrow> ustr" where
  "template_name_of template =
     py_strip (hd (py_split BAR (py_strip_chars [LBRACE, RBRACE] template)))"

text \<open>A part of the parameter list is named when it contains \<open>=\<close>; its key and its value
  are the two stripped halves of \<open>part.split('=', 1)\<close>.\<close>

definition is_named :: "ustr \<Rightarrow> bool" where
  "is_named part = (EQUALS \<in> set part)"

definition part_key :: "ustr \<Rightarrow> ustr" where
  "part_key part = py_strip (fst (py_split1 EQUALS part))"

definition part_value :: "ustr \<Rightarrow> ustr" where
  "part_value part = py_strip (snd (py_split1 EQUALS part))"

definition brace_free :: "ustr \<Rightarrow> bool" where
  "brace_free s = list_all (\<lambda>c. c \<noteq> LBRACE \<and> c \<noteq> RBRACE) s"

definition params_ok :: "(ustr \<rightharpoonup> ustr) \<Rightarrow> ustr list \<Rightarrow> bool" where
  "params_ok named positional =
     ((\<forall>v \<in> ran named. brace_free v) \<and> (\<forall>p \<in> set positional. brace_free p))"

subsection \<open>Evaluation rules\<close>

lemma u_simps: "u [] = []" "u (c # cs) = of_char c # u cs"
  by (simp_all add: u_def)

lemmas ch = LBRACE_def RBRACE_def BAR_def EQUALS_def LBRACK_def RBRACK_def

lemmas str_eval = u_simps ch py_strip_chars_def py_strip_def strip_by_def py_isspace_def
  py_split1_def etyl_def ref_fr_def

lemmas tmpl_eval = parse_wiki_template_def interpret_template_def py_index_def bindE_def
  dict_get_def lang_get_def lang_names_def

subsection \<open>Strings without braces\<close>

lemma brace_free_simps:
  "brace_free []"
  "brace_free (c # cs) = (c \<noteq> LBRACE \<and> c \<noteq> RBRACE \<and> brace_free cs)"
  "brace_free (a @ b) = (brace_free a \<and> brace_free b)"
  by (auto simp: brace_free_def)

lemma brace_free_set: "brace_free s = (LBRACE \<notin> set s \<and> RBRACE \<notin> set s)"
  by (auto simp: brace_free_def list_all_iff)

lemma brace_free_subset: "set a \<subseteq> set b \<Longrightarrow> brace_free b \<Longrightarrow> brace_free a"
  by (auto simp: brace_free_def list_all_iff)

lemma set_strip_by: "set (strip_by P s) \<subseteq> set s"
  by (auto simp: strip_by_def dest!: set_dropWhileD)

lemma brace_free_strip: "brace_free s \<Longrightarrow> brace_free (strip_by P s)"
  using brace_free_subset set_strip_by by blast

lemma strip_by_delims:
  assumes "\<forall>x \<in> set a. P x" and "\<forall>x \<in> set b. P x"
  shows "strip_by P (a @ s @ b) = strip_by P s"
proof -
  have front: "dropWhile P (a @ s @ b) = dropWhile P (s @ b)"
    using assms(1) by (simp add: dropWhile_append2)
  show ?thesis
  proof (cases "\<forall>x \<in> set s. P x")
    case True
    have e1: "dropWhile P (s @ b) = []" using True assms(2) by auto
    have e2: "dropWhile P s = []" using True by auto
    show ?thesis unfolding strip_by_def front e1 e2 by simp
  next
    case False
    then obtain x where "x \<in> set s" "\<not> P x" by blast
    then have "dropWhile P (s @ b) = dropWhile P s @ b"
      by (rule dropWhile_append1)
    moreover have "dropWhile P (rev b @ rev (dropWhile P s)) = dropWhile P (rev (dropWhile P s))"
      by (rule dropWhile_append2) (use assms(2) in auto)
    ultimately show ?thesis by (simp add: strip_by_def front)
  qed
qed

lemma py_split_nonempty: "py_split sep s \<noteq> []"
  by (induction s) (auto split: list.splits)

lemma py_split_sets: "p \<in> set (py_split sep s) \<Longrightarrow> set p \<subseteq> set s"
proof (induction s arbitrary: p)
  case Nil
  then show ?case by simp
next
  case (Cons c cs)
  then show ?case by (fastforce split: if_splits list.splits)
qed

lemma py_split1_sets:
  "set (fst (py_split1 sep s)) \<subseteq> set s" "set (snd (py_split1 sep s)) \<subseteq> set s"
  unfolding py_split1_def by (auto dest: set_takeWhileD set_dropWhileD in_set_dropD)

lemma lang_names_brace_free: "(k, v) \<in> set lang_names \<Longrightarrow> brace_free v"
  by (auto simp: lang_names_def u_simps brace_free_simps ch)

lemma lang_get_brace_free: "brace_free code \<Longrightarrow> brace_free (lang_get code)"
  by (auto simp: lang_get_def dict_get_def split: option.splits
      dest: map_of_SomeD lang_names_brace_free)

lemma parse_params_ok:
  "\<forall>p \<in> set parts. brace_free p \<Longrightarrow> params_ok named positional \<Longrightarrow>
   parse_params parts named positional = (named', positional') \<Longrightarrow>
   params_ok named' positional'"
proof (induction parts named positional rule: parse_params.induct)
  case (1 named positional)
  then show ?case by simp
next
  case (2 part parts named positional)
  have bp: "brace_free part" using 2(3) by simp
  show ?case
  proof (cases "EQUALS \<in> set part")
    case True
    obtain key val where kv: "py_split1 EQUALS part = (key, val)" by force
    have "brace_free val"
      using py_split1_sets(2)[of EQUALS part] kv bp brace_free_subset by fastforce
    then have "brace_free (py_strip val)" by (simp add: py_strip_def brace_free_strip)
    then have ok: "params_ok (named(py_strip key \<mapsto> py_strip val)) positional"
      using 2(4) unfolding params_ok_def ran_def by (auto split: if_splits)
    have step: "parse_params parts (named(py_strip key \<mapsto> py_strip val)) positional
                = (named', positional')"
      using 2(5) True kv by simp
    show ?thesis using 2(1)[OF True kv[symmetric] _ ok step] 2(3) by simp
  next
    case False
    have "brace_free (py_strip part)" using bp by (simp add: py_strip_def brace_free_strip)
    then have ok: "params_ok named (positional @ [py_strip part])"
      using 2(4) unfolding params_ok_def by auto
    have step: "parse_params parts named (positional @ [py_strip part]) = (named', positional')"
      using 2(5) False by simp
    show ?thesis using 2(2)[OF False _ ok step] 2(3) by simp
  qed
qed

lemma py_index_lt: "i < length xs \<Longrightarrow> py_index xs i = Inr (xs ! i)"
  by (simp add: py_index_def)

lemma interpret_unknown:
  "name \<notin> set recognized_names \<Longrightarrow> interpret_template name named positional = Inr []"
  by (simp add: interpret_template_def recognized_names_def)

lemma interpret_brace_free:
  assumes "params_ok named positional"
  shows "\<exists>r. interpret_template name named positional = Inr r \<and> brace_free r"
proof -
  have pos: "\<And>i. i < length positional \<Longrightarrow> brace_free (positional ! i)"
    using assms unfolding params_ok_def by simp
  have nm: "\<And>k. brace_free (dict_get named k [])"
    using assms unfolding params_ok_def dict_get_def ran_def
    by (auto split: option.splits simp: brace_free_simps)
  have lit: "\<And>s. brace_free (u s)
      = list_all (\<lambda>c. of_char c \<noteq> LBRACE \<and> of_char c \<noteq> RBRACE) s"
    by (simp add: brace_free_def u_def list_all_iff)
  have known: "\<forall>n \<in> set recognized_names.
      \<exists>r. interpret_template n named positional = Inr r \<and> brace_free r"
    unfolding recognized_names_def
    by (simp add: interpret_template_def bindE_def py_index_lt Let_def brace_free_simps pos nm
        lit lang_get_brace_free ch brace_free_strip py_strip_chars_def etyl_def ref_fr_def
        u_simps)
  show ?thesis
  proof (cases "name \<in> set recognized_names")
    case True
    then show ?thesis using known by blast
  next
    case False
    then show ?thesis by (simp add: interpret_unknown brace_free_simps)
  qed
qed

lemma parse_wiki_template_dispatch:
  "parse_wiki_template template =
     (case parse_params (drop 1 (py_split BAR (py_strip_chars [LBRACE, RBRACE] template)))
             Map.empty [] of
        (named_params, positional_params) \<Rightarrow>
          interpret_template (template_name_of template) named_params positional_params)"
proof -
  obtain p ps where "py_split BAR (py_strip_chars [LBRACE, RBRACE] template) = p # ps"
    using py_split_nonempty by (meson list.exhaust)
  then show ?thesis
    by (simp add: parse_wiki_template_def template_name_of_def py_index_def bindE_def)
qed

lemma fragment_brace_free:
  assumes "brace_free (py_strip_chars [LBRACE, RBRACE] template)"
  shows "\<exists>r. parse_wiki_template template = Inr r \<and> brace_free r"
proof -
  let ?parts = "py_split BAR (py_strip_chars [LBRACE, RBRACE] template)"
  have "\<forall>p \<in> set ?parts. brace_free p"
    using py_split_sets assms brace_free_subset by blast
  then have rest: "\<forall>p \<in> set (drop 1 ?parts). brace_free p"
    by (meson in_set_dropD)
  obtain named positional where pp: "parse_params (drop 1 ?parts) Map.empty [] = (named, positional)"
    by force
  have "params_ok Map.empty []" by (simp add: params_ok_def)
  then have ok: "params_ok named positional"
    using parse_params_ok[OF rest _ pp] by simp
  show ?thesis
    unfolding parse_wiki_template_dispatch pp using interpret_brace_free[OF ok] by simp
qed

lemma strip_braces_delimited:
  "py_strip_chars [LBRACE, RBRACE] (u ''{{'' @ inner @ u ''}}'')
   = py_strip_chars [LBRACE, RBRACE] inner"
  unfolding py_strip_chars_def
  by (rule strip_by_delims) (simp_all add: u_simps ch)

section \<open>Claims about the template parser and interpreter\<close>

text \<open>
  C5. A template whose name is none of the recognized names resolves to the empty
  fragment, and the interpreter returns normally (no exception): \<open>parse_wiki_template\<close>
  yields \<open>Inr []\<close>.
\<close>

theorem unknown_template_empty:
  "template_name_of template \<notin> set recognized_names \<Longrightarrow>
   parse_wiki_template template = Inr []"
  by (simp add: parse_wiki_template_dispatch interpret_unknown split: prod.splits)

theorem unknown_template_empty_witness:
  "template_name_of (u ''{{foo|la|mot=x}}'') \<notin> set recognized_names \<and>
   parse_wiki_template (u ''{{foo|la|mot=x}}'') = Inr []"
proof -
  have h: "template_name_of (u ''{{foo|la|mot=x}}'') \<notin> set recognized_names"
    by (simp add: template_name_of_def recognized_names_def str_eval)
  show ?thesis using h unknown_template_empty[OF h] by simp
qed

text \<open>
  C6. The origin template \<open>etyl\<close>: the language is the table entry of the first
  positional parameter (the code itself when the table has none), the word is the named
  parameter \<open>mot\<close> or else the third positional parameter, and a transliteration \<open>tr\<close>
  follows the word in parentheses. The two examples of the specification evaluate to
  \<open>*latin* *chaos*\<close> and \<open>*grec ancien* *...* (kh..os)\<close>.
\<close>

theorem etyl_template:
  "(positional \<noteq> [] \<longrightarrow>
      interpret_template etyl named positional =
        Inr (let lang = lang_get (positional ! 0);
                 mot = dict_get named (u ''mot'') [];
                 word = (if mot = [] \<and> length positional \<ge> 3 then positional ! 2 else mot);
                 tr = dict_get named (u ''tr'') []
             in if word = [] then u ''*'' @ lang @ u ''*''
                else if tr = [] then u ''*'' @ lang @ u ''* *'' @ word @ u ''*''
                else u ''*'' @ lang @ u ''* *'' @ word @ u ''* ('' @ tr @ u '')''))
   \<and> parse_wiki_template (u ''{{'' @ etyl @ u ''|la|fr|mot=chaos}}'') = Inr (u ''*latin* *chaos*'')
   \<and> parse_wiki_template
        (u ''{{'' @ etyl @ u ''|grc|fr|mot='' @ [967, 940, 959, 962] @ u ''|tr=kh'' @ [225] @ u ''os}}'')
      = Inr (u ''*grec ancien* *'' @ [967, 940, 959, 962] @ u ''* (kh'' @ [225] @ u ''os)'')"
proof (intro conjI impI)
  assume "positional \<noteq> []"
  then show "interpret_template etyl named positional =
        Inr (let lang = lang_get (positional ! 0);
                 mot = dict_get named (u ''mot'') [];
                 word = (if mot = [] \<and> length positional \<ge> 3 then positional ! 2 else mot);
                 tr = dict_get named (u ''tr'') []
             in if word = [] then u ''*'' @ lang @ u ''*''
                else if tr = [] then u ''*'' @ lang @ u ''* *'' @ word @ u ''*''
                else u ''*'' @ lang @ u ''* *'' @ word @ u ''* ('' @ tr @ u '')'')"
    by (simp add: interpret_template_def bindE_def py_index_lt Let_def)
next
  show "parse_wiki_template (u ''{{'' @ etyl @ u ''|la|fr|mot=chaos}}'') = Inr (u ''*latin* *chaos*'')"
    by (simp add: tmpl_eval str_eval)
next
  show "parse_wiki_template
        (u ''{{'' @ etyl @ u ''|grc|fr|mot='' @ [967, 940, 959, 962] @ u ''|tr=kh'' @ [225] @ u ''os}}'')
      = Inr (u ''*grec ancien* *'' @ [967, 940, 959, 962] @ u ''* (kh'' @ [225] @ u ''os)'')"
    by (simp add: tmpl_eval str_eval)
qed

theorem etyl_template_witness:
  "[u ''non'', u ''fr'', u ''vindauga''] \<noteq> []
   \<and> interpret_template etyl Map.empty [u ''non'', u ''fr'', u ''vindauga'']
       = Inr (u ''*vieux norrois* *vindauga*'')"
  using etyl_template[of "[u ''non'', u ''fr'', u ''vindauga'']" Map.empty]
  by (simp add: dict_get_def lang_get_def lang_names_def u_simps)

text \<open>
  C7. A borrowing or derivation template with a language code in position 2 and no word
  yields the language alone; the inheritance template has no such branch and yields the
  empty fragment.
\<close>

theorem inh_language_only_dropped:
  "parse_wiki_template (u ''{{inh|fr|la}}'') = Inr []
   \<and> parse_wiki_template (u ''{{inherited|fr|la}}'') = Inr []
   \<and> parse_wiki_template (u ''{{bor|fr|la}}'') = Inr (u ''*latin*'')
   \<and> parse_wiki_template (u ''{{der|fr|la}}'') = Inr (u ''*latin*'')"
  by (simp add: tmpl_eval str_eval)

subsection \<open>Duplicate keys\<close>

lemma parse_params_append:
  "parse_params (xs @ ys) named positional =
     (case parse_params xs named positional of (n, p) \<Rightarrow> parse_params ys n p)"
  by (induction xs named positional rule: parse_params.induct)
     (auto simp del: fun_upd_apply split: prod.splits)

lemma parse_params_other_keys:
  "\<forall>q \<in> set parts. is_named q \<longrightarrow> part_key q \<noteq> k \<Longrightarrow>
   fst (parse_params parts named positional) k = named k"
  by (induction parts named positional rule: parse_params.induct)
     (auto simp: is_named_def part_key_def split: prod.splits)

text \<open>
  C3 (as stated, refuted). With the key \<open>mot\<close> given twice, the dictionary binds it to the
  value of the second occurrence, and the fragment shows that value.
\<close>

theorem first_occurrence_wins_counterexample:
  "fst (parse_params [u ''la'', u ''fr'', u ''mot=a'', u ''mot=b''] Map.empty []) (u ''mot'')
     = Some (u ''b'')
   \<and> fst (parse_params [u ''la'', u ''fr'', u ''mot=a'', u ''mot=b''] Map.empty []) (u ''mot'')
     \<noteq> Some (u ''a'')
   \<and> parse_wiki_template (u ''{{'' @ etyl @ u ''|la|fr|mot=a|mot=b}}'') = Inr (u ''*latin* *b*'')"
  by (simp add: tmpl_eval str_eval)

text \<open>
  C3 (amended). The last occurrence wins: when a named part is followed by no later part
  with the same key, the dictionary binds that key to the value of this part, whatever
  came earlier.
\<close>

theorem last_occurrence_wins:
  assumes "is_named part"
    and "\<forall>q \<in> set later. is_named q \<longrightarrow> part_key q \<noteq> part_key part"
  shows "fst (parse_params (earlier @ part # later) named positional) (part_key part)
         = Some (part_value part)"
proof -
  obtain n p where e: "parse_params earlier named positional = (n, p)" by force
  have "parse_params (earlier @ part # later) named positional
        = parse_params later (n(part_key part \<mapsto> part_value part)) p"
    using assms(1) e
    by (simp add: parse_params_append is_named_def part_key_def part_value_def
        split: prod.splits)
  then show ?thesis
    using parse_params_other_keys[OF assms(2)] by simp
qed

theorem last_occurrence_wins_witness:
  "is_named (u ''mot=b'')
   \<and> list_all (\<lambda>q. \<not> (is_named q \<and> part_key q = part_key (u ''mot=b''))) [u ''tr=c'', u ''fr'']
   \<and> fst (parse_params ([u ''la'', u ''mot=a''] @ u ''mot=b'' # [u ''tr=c'', u ''fr'']) Map.empty [])
        (u ''mot'') = Some (u ''b'')"
proof -
  have h1: "is_named (u ''mot=b'')" by (simp add: is_named_def str_eval)
  have h2: "\<forall>q \<in> set [u ''tr=c'', u ''fr'']. is_named q \<longrightarrow> part_key q \<noteq> part_key (u ''mot=b'')"
    by (simp add: is_named_def part_key_def str_eval)
  have k: "part_key (u ''mot=b'') = u ''mot''" "part_value (u ''mot=b'') = u ''b''"
    by (simp_all add: part_key_def part_value_def str_eval)
  show ?thesis
    using h1 h2 last_occurrence_wins[OF h1 h2, of "[u ''la'', u ''mot=a'']" Map.empty "[]"]
    unfolding k by simp
qed

text \<open>
  C10. A template whose content between the double braces has no brace yields a
  fragment with no brace (and the interpreter returns normally).
\<close>

theorem innermost_fragment_has_no_braces:
  "LBRACE \<notin> set inner \<and> RBRACE \<notin> set inner \<Longrightarrow>
   \<exists>r. parse_wiki_template (u ''{{'' @ inner @ u ''}}'') = Inr r
       \<and> LBRACE \<notin> set r \<and> RBRACE \<notin> set r"
proof -
  assume "LBRACE \<notin> set inner \<and> RBRACE \<notin> set inner"
  then have "brace_free inner" by (simp add: brace_free_set)
  then have "brace_free (py_strip_chars [LBRACE, RBRACE] (u ''{{'' @ inner @ u ''}}''))"
    by (simp only: strip_braces_delimited) (simp add: py_strip_chars_def brace_free_strip)
  then show ?thesis
    using fragment_brace_free by (simp add: brace_free_set)
qed

theorem innermost_fragment_has_no_braces_witness:
  "LBRACE \<notin> set (etyl @ u ''|la|fr|mot=chaos'') \<and> RBRACE \<notin> set (etyl @ u ''|la|fr|mot=chaos'')
   \<and> (\<exists>r. parse_wiki_template (u ''{{'' @ (etyl @ u ''|la|fr|mot=chaos'') @ u ''}}'') = Inr r
          \<and> LBRACE \<notin> set r \<and> RBRACE \<notin> set r)"
proof -
  have h: "LBRACE \<notin> set (etyl @ u ''|la|fr|mot=chaos'') \<and> RBRACE \<notin> set (etyl @ u ''|la|fr|mot=chaos'')"
    by (simp add: str_eval)
  show ?thesis
    using h innermost_fragment_has_no_braces[OF h] by blast
qed

section \<open>Regular-expression substitution\<close>

text \<open>
  \<open>re.sub(pattern, repl, s)\<close> scans \<open>s\<close> from the left; where the pattern matches it
  writes the replacement and goes on after the match, elsewhere it copies one character.
  A matcher stands for a pattern anchored at the current position: it gives the
  replacement and the text after the match. None of the patterns of this program
  matches the empty string; for a matcher that consumed nothing the scan writes the
  replacement, copies the character and moves on, as \<open>re.sub\<close> does.
\<close>

fun re_sub :: "(ustr \<Rightarrow> (ustr \<times> ustr) option) \<Rightarrow> ustr \<Rightarrow> ustr" where
  "re_sub m [] = []"
| "re_sub m (c # cs) =
     (case m (c # cs) of
        None \<Rightarrow> c # re_sub m cs
      | Some (out, rest) \<Rightarrow>
          if length rest < length (c # cs) then out @ re_sub m rest
          else out @ c # re_sub m cs)"

text \<open>
  The same scan with a replacement function that may raise: the matcher gives the
  matched text (\<open>match.group(0)\<close>), and the first exception ends the substitution.
\<close>

fun re_sub_call ::
  "(ustr \<Rightarrow> (ustr \<times> ustr) option) \<Rightarrow> (ustr \<Rightarrow> py_error + ustr) \<Rightarrow> ustr \<Rightarrow> py_error + ustr" where
  "re_sub_call m repl [] = Inr []"
| "re_sub_call m repl (c # cs) =
     (case m (c # cs) of
        None \<Rightarrow> (case re_sub_call m repl cs of Inl e \<Rightarrow> Inl e | Inr t \<Rightarrow> Inr (c # t))
      | Some (matched, rest) \<Rightarrow>
          (case repl matched of
             Inl e \<Rightarrow> Inl e
           | Inr out \<Rightarrow>
               if length rest < length (c # cs) then
                 (case re_sub_call m repl rest of Inl e \<Rightarrow> Inl e | Inr t \<Rightarrow> Inr (out @ t))
               else
                 (case re_sub_call m repl cs of Inl e \<Rightarrow> Inl e | Inr t \<Rightarrow> Inr (out @ c # t))))"

definition starts_with :: "ustr \<Rightarrow> ustr \<Rightarrow> bool" where
  "starts_with p s = (take (length p) s = p)"

section \<open>The fixpoint resolver\<close>

text \<open>\<open>[^{}]*\}\}\<close> at the start of a text: the brace-free run and the text after \<open>}}\<close>.\<close>

fun close_template :: "ustr \<Rightarrow> (ustr \<times> ustr) option" where
  "close_template [] = None"
| "close_template (c # cs) =
     (if c = RBRACE then
        (case cs of [] \<Rightarrow> None | d # r \<Rightarrow> if d = RBRACE then Some ([], r) else None)
      else if c = LBRACE then None
      else (case close_template cs of
              None \<Rightarrow> None
            | Some (inner, r) \<Rightarrow> Some (c # inner, r)))"

text \<open>\<open>\{\{([^{}]*)\}\}\<close> at the start of a text: group 1 and the text after the match.\<close>

fun match_template :: "ustr \<Rightarrow> (ustr \<times> ustr) option" where
  "match_template (a # b # r) =
     (if a = LBRACE \<and> b = LBRACE then close_template r else None)"
| "match_template _ = None"

text \<open>The matcher of the resolver: the matched text \<open>{{inner}}\<close> and the rest.\<close>

definition template_matcher :: "ustr \<Rightarrow> (ustr \<times> ustr) option" where
  "template_matcher s =
     (case match_template s of
        None \<Rightarrow> None
      | Some (inner, rest) \<Rightarrow> Some (u ''{{'' @ inner @ u ''}}'', rest))"

definition replace_template :: "ustr \<Rightarrow> py_error + ustr" where
  "replace_template matched = parse_wiki_template matched"

text \<open>One pass: \<open>re.sub(r'\{\{([^{}]*)\}\}', replace_template, etymology)\<close>.\<close>

definition resolve_pass :: "ustr \<Rightarrow> py_error + ustr" where
  "resolve_pass etymology = re_sub_call template_matcher replace_template etymology"

text \<open>
  The loop \<open>prev = None; while prev != etymology: prev = etymology; etymology = re.sub(...)\<close>.
  The state is \<open>prev\<close> and \<open>etymology\<close>; \<open>passes\<close> counts the executions of the loop body
  and is returned with the final text. The result \<open>None\<close> of the option type stands for
  a loop that does not return; an exception of a pass ends the loop with \<open>Inl\<close>.
\<close>

partial_function (option) resolve_loop ::
  "ustr option \<Rightarrow> ustr \<Rightarrow> nat \<Rightarrow> (py_error + ustr \<times> nat) option" where
  [code]: "resolve_loop prev etymology passes =
     (if prev \<noteq> Some etymology then
        (case resolve_pass etymology of
           Inl e \<Rightarrow> Some (Inl e)
         | Inr etymology' \<Rightarrow> resolve_loop (Some etymology) etymology' (Suc passes))
      else Some (Inr (etymology, passes)))"

definition resolve_templates :: "ustr \<Rightarrow> (py_error + ustr \<times> nat) option" where
  "resolve_templates etymology = resolve_loop None etymology 0"

text \<open>The nesting depth of braces: the largest number of braces open at one point of the
  text, a closing brace with nothing open being ignored.\<close>

definition step_depth :: "nat \<Rightarrow> nat \<Rightarrow> nat" where
  "step_depth d c = (if c = LBRACE then d + 1 else if c = RBRACE then d - 1 else d)"

fun depth_from :: "nat \<Rightarrow> ustr \<Rightarrow> nat" where
  "depth_from d [] = d"
| "depth_from d (c # cs) = max d (depth_from (step_depth d c) cs)"

definition brace_depth :: "ustr \<Rightarrow> nat" where
  "brace_depth s = depth_from 0 s"

section \<open>The link flattener\<close>

text \<open>
  \<open>\[\[([^|\]]+\|)?([^\]]+)\]\]\<close> at the start of a text, replaced by group 2. After
  \<open>[[\<close> the body runs to the first \<open>]\<close>, is not empty and is followed by \<open>]]\<close>. Group 1
  takes a non-empty target and the first bar when something is left for group 2;
  otherwise group 2 is the whole body.
\<close>

definition link_matcher :: "ustr \<Rightarrow> (ustr \<times> ustr) option" where
  "link_matcher s =
     (if starts_with [LBRACK, LBRACK] s then
        (let r = drop 2 s;
             body = takeWhile (\<lambda>c. c \<noteq> RBRACK) r;
             after = dropWhile (\<lambda>c. c \<noteq> RBRACK) r;
             target = takeWhile (\<lambda>c. c \<noteq> BAR) body;
             display = drop 1 (dropWhile (\<lambda>c. c \<noteq> BAR) body)
         in if body \<noteq> [] \<and> starts_with [RBRACK, RBRACK] after then
              Some (if target \<noteq> [] \<and> BAR \<in> set body \<and> display \<noteq> [] then display else body,
                    drop 2 after)
            else None)
      else None)"

definition flatten_links :: "ustr \<Rightarrow> ustr" where
  "flatten_links etymology = re_sub link_matcher etymology"

section \<open>The markup scrubber\<close>

definition APOS :: nat where "APOS = 39"
definition LT :: nat where "LT = 60"
definition GT :: nat where "GT = 62"
definition SLASH :: nat where "SLASH = 47"
definition LPAREN :: nat where "LPAREN = 40"
definition RPAREN :: nat where "RPAREN = 41"
definition COMMA :: nat where "COMMA = 44"
definition SEMICOLON :: nat where "SEMICOLON = 59"
definition COLON :: nat where "COLON = 58"
definition DOT :: nat where "DOT = 46"
definition SPACE :: nat where "SPACE = 32"
definition NEWLINE :: nat where "NEWLINE = 10"

text \<open>
  Two tables of Python's Unicode database are parameters: \<open>W\<close>, the class \<open>\w\<close> beyond
  ASCII, and \<open>U\<close>, \<open>str.upper\<close> of one character beyond ASCII (it may give several
  characters). On ASCII both are written out.
\<close>

definition is_word_char :: "(nat \<Rightarrow> bool) \<Rightarrow> nat \<Rightarrow> bool" where
  "is_word_char W c =
     (if c < 128 then (48 \<le> c \<and> c \<le> 57) \<or> (65 \<le> c \<and> c \<le> 90) \<or> (97 \<le> c \<and> c \<le> 122) \<or> c = 95
      else W c)"

definition py_upper :: "(nat \<Rightarrow> ustr) \<Rightarrow> nat \<Rightarrow> ustr" where
  "py_upper U c = (if c < 128 then [if 97 \<le> c \<and> c \<le> 122 then c - 32 else c] else U c)"

text \<open>\<open>\b\<close> between two neighbours (\<open>None\<close> is the start or the end of the text): exactly
  one of them is a word character.\<close>

definition word_boundary :: "(nat \<Rightarrow> bool) \<Rightarrow> nat option \<Rightarrow> nat option \<Rightarrow> bool" where
  "word_boundary W a b =
     ((case a of None \<Rightarrow> False | Some c \<Rightarrow> is_word_char W c)
      \<noteq> (case b of None \<Rightarrow> False | Some c \<Rightarrow> is_word_char W c))"

text \<open>The bold and italic markup: three apostrophes, or else two.\<close>

definition quotes_matcher :: "ustr \<Rightarrow> (ustr \<times> ustr) option" where
  "quotes_matcher s =
     (if starts_with [APOS, APOS, APOS] s then Some ([], drop 3 s)
      else if starts_with [APOS, APOS] s then Some ([], drop 2 s)
      else None)"

text \<open>\<open>.*?</ref>\<close>: the first \<open></ref>\<close> with no newline before it (no \<open>DOTALL\<close> here).\<close>

fun until_ref_close :: "ustr \<Rightarrow> ustr option" where
  "until_ref_close [] = None"
| "until_ref_close (c # cs) =
     (if starts_with (u ''</ref>'') (c # cs) then Some (drop 6 (c # cs))
      else if c = NEWLINE then None
      else until_ref_close cs)"

text \<open>\<open><ref[^>]*>.*?</ref>\<close>.\<close>

definition ref_span_matcher :: "ustr \<Rightarrow> (ustr \<times> ustr) option" where
  "ref_span_matcher s =
     (if starts_with (u ''<ref'') s then
        (case dropWhile (\<lambda>c. c \<noteq> GT) (drop 4 s) of
           [] \<Rightarrow> None
         | g # r \<Rightarrow> (case until_ref_close r of None \<Rightarrow> None | Some rest \<Rightarrow> Some ([], rest)))
      else None)"

text \<open>\<open><ref[^>]*/>\<close>: the first \<open>>\<close> after \<open><ref\<close>, with a slash just before it.\<close>

definition ref_self_matcher :: "ustr \<Rightarrow> (ustr \<times> ustr) option" where
  "ref_self_matcher s =
     (if starts_with (u ''<ref'') s then
        (let attrs = takeWhile (\<lambda>c. c \<noteq> GT) (drop 4 s);
             after = dropWhile (\<lambda>c. c \<noteq> GT) (drop 4 s)
         in if attrs \<noteq> [] \<and> last attrs = SLASH \<and> after \<noteq> [] then Some ([], drop 1 after)
            else None)
      else None)"

text \<open>\<open><[^>]+>\<close>.\<close>

definition tag_matcher :: "ustr \<Rightarrow> (ustr \<times> ustr) option" where
  "tag_matcher s =
     (case s of
        [] \<Rightarrow> None
      | c # r \<Rightarrow>
          if c = LT then
            (let body = takeWhile (\<lambda>c. c \<noteq> GT) r; after = dropWhile (\<lambda>c. c \<noteq> GT) r
             in if body \<noteq> [] \<and> after \<noteq> [] then Some ([], drop 1 after) else None)
          else None)"

text \<open>
  \<open>re.sub(r'\bLIT\b', rep, s)\<close> for a literal: the scan carries the character before the
  current position, which \<open>\b\<close> looks at.
\<close>

fun sub_word :: "(nat \<Rightarrow> bool) \<Rightarrow> ustr \<Rightarrow> ustr \<Rightarrow> nat option \<Rightarrow> ustr \<Rightarrow> ustr" where
  "sub_word W lit rep prev [] = []"
| "sub_word W lit rep prev (c # cs) =
     (if lit \<noteq> [] \<and> starts_with lit (c # cs) \<and> word_boundary W prev (Some c)
         \<and> word_boundary W (Some (last lit))
              (case drop (length lit - 1) cs of [] \<Rightarrow> None | d # _ \<Rightarrow> Some d)
      then rep @ sub_word W lit rep (Some (last lit)) (drop (length lit - 1) cs)
      else c # sub_word W lit rep (Some c) cs)"

text \<open>\<open>Displaced native\s*\.?\<close>.\<close>

definition displaced_matcher :: "ustr \<Rightarrow> (ustr \<times> ustr) option" where
  "displaced_matcher s =
     (if starts_with (u ''Displaced native'') s then
        (let r = dropWhile py_isspace (drop 16 s)
         in Some ([], if starts_with [DOT] r then drop 1 r else r))
      else None)"

text \<open>\<open>\s+\<close>, replaced by one space.\<close>

definition space_matcher :: "ustr \<Rightarrow> (ustr \<times> ustr) option" where
  "space_matcher s =
     (case s of
        [] \<Rightarrow> None
      | c # r \<Rightarrow> if py_isspace c then Some ([SPACE], dropWhile py_isspace r) else None)"

text \<open>\<open>re.sub(r'\s+', ' ', etymology).strip()\<close>.\<close>

definition collapse_spaces :: "ustr \<Rightarrow> ustr" where
  "collapse_spaces s = py_strip (re_sub space_matcher s)"

text \<open>\<open>re.sub(r'^:\s*', '', s)\<close>: only at the start of the text.\<close>

definition strip_leading_colon :: "ustr \<Rightarrow> ustr" where
  "strip_leading_colon s =
     (case s of [] \<Rightarrow> [] | c # r \<Rightarrow> if c = COLON then dropWhile py_isspace r else s)"

text \<open>\<open>\(\s*\)\<close>.\<close>

definition paren_matcher :: "ustr \<Rightarrow> (ustr \<times> ustr) option" where
  "paren_matcher s =
     (case s of
        [] \<Rightarrow> None
      | c # r \<Rightarrow>
          if c = LPAREN then
            (case dropWhile py_isspace r of
               [] \<Rightarrow> None
             | d # r' \<Rightarrow> if d = RPAREN then Some ([], r') else None)
          else None)"

text \<open>\<open>,\s*,\<close>, replaced by one comma.\<close>

definition comma_matcher :: "ustr \<Rightarrow> (ustr \<times> ustr) option" where
  "comma_matcher s =
     (case s of
        [] \<Rightarrow> None
      | c # r \<Rightarrow>
          if c = COMMA then
            (case dropWhile py_isspace r of
               [] \<Rightarrow> None
             | d # r' \<Rightarrow> if d = COMMA then Some ([COMMA], r') else None)
          else None)"

text \<open>\<open>\s*[,;]\s*$\<close>: white space, a comma or semicolon, and white space up to the end.\<close>

definition trailing_matcher :: "ustr \<Rightarrow> (ustr \<times> ustr) option" where
  "trailing_matcher s =
     (case dropWhile py_isspace s of
        [] \<Rightarrow> None
      | c # r \<Rightarrow>
          if (c = COMMA \<or> c = SEMICOLON) \<and> dropWhile py_isspace r = [] then Some ([], [])
          else None)"

text \<open>\<open>if etymology: etymology = etymology[0].upper() + etymology[1:]\<close>.\<close>

definition capitalize :: "(nat \<Rightarrow> ustr) \<Rightarrow> ustr \<Rightarrow> ustr" where
  "capitalize U s = (case s of [] \<Rightarrow> [] | c # r \<Rightarrow> py_upper U c @ r)"

text \<open>The rules of the scrubber in the order of the source, from the removal of bold and
  italic markup to the capital first letter.\<close>

definition scrub :: "(nat \<Rightarrow> ustr) \<Rightarrow> (nat \<Rightarrow> bool) \<Rightarrow> ustr \<Rightarrow> ustr" where
  "scrub U W etymology =
     (let e1 = re_sub quotes_matcher etymology;
          e2 = re_sub ref_span_matcher e1;
          e3 = re_sub ref_self_matcher e2;
          e4 = re_sub tag_matcher e3;
          e5 = sub_word W (u ''la-lat'') (u ''Late Latin'') None e4;
          e6 = sub_word W (u ''la-med'') (u ''Medieval Latin'') None e5;
          e7 = sub_word W (u ''la-new'') (u ''New Latin'') None e6;
          e8 = re_sub displaced_matcher e7;
          e9 = collapse_spaces e8;
          e10 = strip_leading_colon e9;
          e11 = re_sub paren_matcher e10;
          e12 = re_sub comma_matcher e11;
          e13 = collapse_spaces e12;
          e14 = re_sub trailing_matcher e13
      in capitalize U e14)"

section \<open>The section extractor and the pipeline\<close>

text \<open>
  \<open>re.IGNORECASE\<close> compares a literal of the pattern with a character of the text. A
  character always matches itself and two ASCII characters match when they are the same
  letter in either case; beyond ASCII the case table of Python's Unicode database is the
  parameter \<open>CI\<close>.
\<close>

definition ascii_lower :: "nat \<Rightarrow> nat" where
  "ascii_lower c = (if 65 \<le> c \<and> c \<le> 90 then c + 32 else c)"

definition ci_match :: "(nat \<Rightarrow> nat \<Rightarrow> bool) \<Rightarrow> nat \<Rightarrow> nat \<Rightarrow> bool" where
  "ci_match CI p c =
     (c = p \<or> (if p < 128 \<and> c < 128 then ascii_lower c = ascii_lower p else CI p c))"

fun ci_starts_with :: "(nat \<Rightarrow> nat \<Rightarrow> bool) \<Rightarrow> ustr \<Rightarrow> ustr \<Rightarrow> bool" where
  "ci_starts_with CI [] s = True"
| "ci_starts_with CI (p # ps) [] = False"
| "ci_starts_with CI (p # ps) (c # cs) = (ci_match CI p c \<and> ci_starts_with CI ps cs)"

text \<open>\<open>(.*?)(?=\n===)\<close> with \<open>DOTALL\<close>: the text up to the first newline that is followed by
  \<open>===\<close>.\<close>

fun until_heading :: "ustr \<Rightarrow> ustr option" where
  "until_heading [] = None"
| "until_heading (c # cs) =
     (if starts_with (NEWLINE # u ''==='') (c # cs) then Some []
      else (case until_heading cs of None \<Rightarrow> None | Some g \<Rightarrow> Some (c # g)))"

text \<open>\<open>===\s*HEADING\s*===\n(.*?)(?=\n===)\<close> at the start of a text: group 1.\<close>

definition section_at :: "(nat \<Rightarrow> nat \<Rightarrow> bool) \<Rightarrow> ustr \<Rightarrow> ustr \<Rightarrow> ustr option" where
  "section_at CI heading s =
     (if starts_with (u ''==='') s then
        (let r = dropWhile py_isspace (drop 3 s)
         in if ci_starts_with CI heading r then
              (let r2 = dropWhile py_isspace (drop (length heading) r)
               in if starts_with (u ''==='' @ [NEWLINE]) r2 then until_heading (drop 4 r2)
                  else None)
            else None)
      else None)"

text \<open>\<open>re.search\<close>: the first position, from the left, where the pattern matches.\<close>

fun re_search :: "(ustr \<Rightarrow> 'a option) \<Rightarrow> ustr \<Rightarrow> 'a option" where
  "re_search m [] = m []"
| "re_search m (c # cs) = (case m (c # cs) of Some g \<Rightarrow> Some g | None \<Rightarrow> re_search m cs)"

text \<open>The two searches for the heading: the templated one, then the plain one.\<close>

definition find_section :: "(nat \<Rightarrow> nat \<Rightarrow> bool) \<Rightarrow> ustr \<Rightarrow> ustr option" where
  "find_section CI wikitext =
     (case re_search (section_at CI (u ''{{S|'' @ [233] @ u ''tymologie}}'')) wikitext of
        Some g \<Rightarrow> Some g
      | None \<Rightarrow> re_search (section_at CI ([201] @ u ''tymologie'')) wikitext)"

text \<open>
  The body of \<open>fetch_etymology_parse_api\<close> from the wikitext on, up to the scrubbed
  string: \<open>Inr None\<close> when no section is found, \<open>Inl\<close> for an exception, and the outer
  \<open>None\<close> for a resolver loop that does not return.
\<close>

definition scrubbed_etymology ::
  "(nat \<Rightarrow> ustr) \<Rightarrow> (nat \<Rightarrow> bool) \<Rightarrow> (nat \<Rightarrow> nat \<Rightarrow> bool) \<Rightarrow> ustr \<Rightarrow> (py_error + ustr option) option" where
  "scrubbed_etymology U W CI wikitext =
     (case find_section CI wikitext of
        None \<Rightarrow> Some (Inr None)
      | Some g \<Rightarrow>
          (case resolve_templates (py_strip g) of
             None \<Rightarrow> None
           | Some (Inl e) \<Rightarrow> Some (Inl e)
           | Some (Inr (etymology, passes)) \<Rightarrow>
               Some (Inr (Some (scrub U W (flatten_links etymology))))))"

text \<open>
  \<open>fetch_etymology_parse_api\<close> from the wikitext that the request returned: the quality
  gate \<open>if etymology and len(etymology) > 10\<close>, the final \<open>return None\<close>, and
  \<open>except Exception: return None\<close>. \<open>Some None\<close> is the returned value \<open>None\<close>.
\<close>

definition fetch_etymology_parse_api ::
  "(nat \<Rightarrow> ustr) \<Rightarrow> (nat \<Rightarrow> bool) \<Rightarrow> (nat \<Rightarrow> nat \<Rightarrow> bool) \<Rightarrow> ustr \<Rightarrow> ustr option option" where
  "fetch_etymology_parse_api U W CI wikitext =
     (case scrubbed_etymology U W CI wikitext of
        None \<Rightarrow> None
      | Some (Inl e) \<Rightarrow> Some None
      | Some (Inr None) \<Rightarrow> Some None
      | Some (Inr (Some etymology)) \<Rightarrow>
          if etymology \<noteq> [] \<and> length etymology > 10 then Some (Some etymology) else Some None)"

text \<open>Tables that leave every character beyond ASCII alone, for closed examples on
  ASCII texts.\<close>

definition plain_upper :: "nat \<Rightarrow> ustr" where "plain_upper c = [c]"
definition plain_word :: "nat \<Rightarrow> bool" where "plain_word c = False"
definition plain_ci :: "nat \<Rightarrow> nat \<Rightarrow> bool" where "plain_ci p c = False"

section \<open>Claims about the link flattener\<close>

lemma takeWhile_until: "x \<notin> set a \<Longrightarrow> takeWhile (\<lambda>c. c \<noteq> x) (a @ x # b) = a"
  by (induction a) auto

lemma dropWhile_until: "x \<notin> set a \<Longrightarrow> dropWhile (\<lambda>c. c \<noteq> x) (a @ x # b) = x # b"
  by (induction a) auto

lemma link_matcher_display:
  assumes "target \<noteq> []" "display \<noteq> []" "RBRACK \<notin> set target" "BAR \<notin> set target" "RBRACK \<notin> set display"
  shows "link_matcher (u ''[['' @ target @ u ''|'' @ display @ u '']]'' @ rest) = Some (display, rest)"
proof -
  let ?b = "target @ BAR # display"
  have s: "u ''[['' @ target @ u ''|'' @ display @ u '']]'' @ rest = LBRACK # LBRACK # ?b @ RBRACK # RBRACK # rest"
    by (simp add: u_simps ch)
  have nb: "RBRACK \<notin> set ?b" using assms(3,5) by (simp add: ch)
  have body: "takeWhile (\<lambda>c. c \<noteq> RBRACK) (?b @ RBRACK # RBRACK # rest) = ?b"
    using nb by (rule takeWhile_until)
  have after: "dropWhile (\<lambda>c. c \<noteq> RBRACK) (?b @ RBRACK # RBRACK # rest) = RBRACK # RBRACK # rest"
    using nb by (rule dropWhile_until)
  have tgt: "takeWhile (\<lambda>c. c \<noteq> BAR) ?b = target"
    using assms(4) by (rule takeWhile_until)
  have disp: "dropWhile (\<lambda>c. c \<noteq> BAR) ?b = BAR # display"
    using assms(4) by (rule dropWhile_until)
  show ?thesis
    unfolding s link_matcher_def
    using assms(1,2) by (simp add: starts_with_def body after tgt disp Let_def del: append_assoc)
qed

lemma link_matcher_plain:
  assumes "target \<noteq> []" "RBRACK \<notin> set target" "BAR \<notin> set target"
  shows "link_matcher (u ''[['' @ target @ u '']]'' @ rest) = Some (target, rest)"
proof -
  let ?r = "target @ RBRACK # RBRACK # rest"
  have s: "u ''[['' @ target @ u '']]'' @ rest = LBRACK # LBRACK # ?r"
    by (simp add: u_simps ch)
  have body: "takeWhile (\<lambda>c. c \<noteq> RBRACK) ?r = target"
    using assms(2) by (rule takeWhile_until)
  have after: "dropWhile (\<lambda>c. c \<noteq> RBRACK) ?r = RBRACK # RBRACK # rest"
    using assms(2) by (rule dropWhile_until)
  show ?thesis
    unfolding s link_matcher_def
    using assms(1,3) by (simp add: starts_with_def body after Let_def)
qed

lemma re_sub_match:
  "m s = Some (out, rest) \<Longrightarrow> length rest < length s \<Longrightarrow> re_sub m s = out @ re_sub m rest"
  by (cases s) auto

lemmas link_eval = flatten_links_def link_matcher_def starts_with_def Let_def u_simps ch

text \<open>
  C9 (as stated, refuted). With an empty target or an empty display the text is not
  replaced by the display: \<open>[[|x]]\<close> becomes \<open>|x\<close>, \<open>[[a|]]\<close> becomes \<open>a|\<close>, and \<open>[[]]\<close>
  stays as it is.
\<close>

theorem flatten_links_empty_counterexample:
  "flatten_links (u ''[['' @ [] @ u ''|'' @ u ''x'' @ u '']]'') = u ''|x''
   \<and> flatten_links (u ''[['' @ [] @ u ''|'' @ u ''x'' @ u '']]'') \<noteq> u ''x''
   \<and> flatten_links (u ''[['' @ u ''a'' @ u ''|'' @ [] @ u '']]'') = u ''a|''
   \<and> flatten_links (u ''[['' @ [] @ u '']]'') = u ''[[]]''"
  by (simp add: link_eval)

text \<open>
  C9 (amended). For a non-empty target without \<open>]\<close> and \<open>|\<close> and a non-empty display
  without \<open>]\<close>, the link \<open>[[target|display]]\<close> is replaced by the display and the link
  \<open>[[target]]\<close> by the target, the text after the link being flattened in turn; and
  \<open>[[chaos|Chaos]]\<close> gives \<open>Chaos\<close>, \<open>[[chaos]]\<close> gives \<open>chaos\<close>.
\<close>

theorem flatten_links_shapes:
  assumes "target \<noteq> []" "display \<noteq> []"
    and "RBRACK \<notin> set target" "BAR \<notin> set target" "RBRACK \<notin> set display"
  shows "flatten_links (u ''[['' @ target @ u ''|'' @ display @ u '']]'' @ rest)
           = display @ flatten_links rest
    \<and> flatten_links (u ''[['' @ target @ u '']]'' @ rest) = target @ flatten_links rest
    \<and> flatten_links (u ''[[chaos|Chaos]]'') = u ''Chaos''
    \<and> flatten_links (u ''[[chaos]]'') = u ''chaos''"
proof -
  have ex: "flatten_links (u ''[[chaos|Chaos]]'') = u ''Chaos''"
    "flatten_links (u ''[[chaos]]'') = u ''chaos''"
    by (simp_all add: link_eval)
  show ?thesis
    unfolding flatten_links_def
    using re_sub_match[where m = link_matcher, OF link_matcher_display[OF assms, of rest]]
      re_sub_match[where m = link_matcher, OF link_matcher_plain[OF assms(1,3,4), of rest]]
      ex
    by (simp add: u_simps flatten_links_def)
qed

theorem flatten_links_shapes_witness:
  "u ''chaos'' \<noteq> [] \<and> u ''Le Chaos'' \<noteq> [] \<and> RBRACK \<notin> set (u ''chaos'')
   \<and> BAR \<notin> set (u ''chaos'') \<and> RBRACK \<notin> set (u ''Le Chaos'')
   \<and> flatten_links (u ''[['' @ u ''chaos'' @ u ''|'' @ u ''Le Chaos'' @ u '']]'' @ u '' grec'')
       = u ''Le Chaos grec''
   \<and> flatten_links (u ''[['' @ u ''chaos'' @ u '']]'' @ u '' grec'') = u ''chaos grec''"
proof -
  have h: "u ''chaos'' \<noteq> []" "u ''Le Chaos'' \<noteq> []" "RBRACK \<notin> set (u ''chaos'')"
    "BAR \<notin> set (u ''chaos'')" "RBRACK \<notin> set (u ''Le Chaos'')"
    by (simp_all add: u_simps ch)
  have r: "flatten_links (u '' grec'') = u '' grec''"
    by (simp add: link_eval)
  show ?thesis
    using h flatten_links_shapes[OF h, of "u '' grec''"] unfolding r
    by (simp add: u_simps)
qed

section \<open>Claims about the scrubber and the quality gate\<close>

lemmas sch = APOS_def LT_def GT_def SLASH_def LPAREN_def RPAREN_def COMMA_def SEMICOLON_def
  COLON_def DOT_def SPACE_def NEWLINE_def

lemmas scrub_eval = scrub_def Let_def quotes_matcher_def ref_span_matcher_def
  ref_self_matcher_def tag_matcher_def displaced_matcher_def space_matcher_def
  collapse_spaces_def strip_leading_colon_def paren_matcher_def comma_matcher_def
  trailing_matcher_def capitalize_def py_upper_def is_word_char_def word_boundary_def
  starts_with_def sch str_eval

lemmas resolve_eval = resolve_templates_def resolve_loop.simps resolve_pass_def
  template_matcher_def replace_template_def

lemmas section_eval = find_section_def section_at_def ci_match_def ascii_lower_def

text \<open>
  C8 (as stated, refuted). The scrubbed form of \<open>"  , ,  coucou ()  ,"\<close> is not
  \<open>"Coucou"\<close>.
\<close>

theorem scrub_coucou_counterexample:
  "scrub plain_upper plain_word (u ''  , ,  coucou ()  ,'') \<noteq> u ''Coucou''"
  by (simp add: scrub_eval)

text \<open>
  C8 (amended). Whatever the Unicode tables, the scrubbed form of
  \<open>"  , ,  coucou ()  ,"\<close> is \<open>", coucou"\<close>: the doubled comma becomes one comma, which
  stays at the front, and the first character being a comma nothing is capitalized.
  Scrubbing \<open>"Coucou"\<close> leaves it unchanged.
\<close>

theorem scrub_coucou:
  "scrub U W (u ''  , ,  coucou ()  ,'') = u '', coucou''
   \<and> scrub U W (u ''Coucou'') = u ''Coucou''"
  by (simp add: scrub_eval)

text \<open>
  C2 (as stated, refuted). Scrubbing \<open>"a,;"\<close> gives \<open>"A,"\<close> (the rule for trailing
  separators removes one of them), and scrubbing \<open>"A,"\<close> gives \<open>"A"\<close>.
\<close>

theorem scrub_not_idempotent_counterexample:
  "scrub plain_upper plain_word (u ''a,;'') = u ''A,''
   \<and> scrub plain_upper plain_word (scrub plain_upper plain_word (u ''a,;'')) = u ''A''
   \<and> scrub plain_upper plain_word (scrub plain_upper plain_word (u ''a,;''))
       \<noteq> scrub plain_upper plain_word (u ''a,;'')"
proof -
  have 1: "scrub plain_upper plain_word (u ''a,;'') = u ''A,''"
    by (simp add: scrub_eval)
  have 2: "scrub plain_upper plain_word (u ''A,'') = u ''A''"
    by (simp add: scrub_eval)
  show ?thesis unfolding 1 2 by (simp add: u_simps)
qed

text \<open>
  \<open>never m t\<close>: the pattern of the matcher \<open>m\<close> matches at no position of \<open>t\<close>;
  \<open>never_word\<close> says the same of a literal between word boundaries. A text is settled
  when no rule of the scrubber finds anything to change in it.
\<close>

fun never :: "(ustr \<Rightarrow> (ustr \<times> ustr) option) \<Rightarrow> ustr \<Rightarrow> bool" where
  "never m [] = True"
| "never m (c # cs) = (m (c # cs) = None \<and> never m cs)"

fun never_word :: "(nat \<Rightarrow> bool) \<Rightarrow> ustr \<Rightarrow> nat option \<Rightarrow> ustr \<Rightarrow> bool" where
  "never_word W lit prev [] = True"
| "never_word W lit prev (c # cs) =
     (\<not> (lit \<noteq> [] \<and> starts_with lit (c # cs) \<and> word_boundary W prev (Some c)
          \<and> word_boundary W (Some (last lit))
               (case drop (length lit - 1) cs of [] \<Rightarrow> None | d # _ \<Rightarrow> Some d))
      \<and> never_word W lit (Some c) cs)"

definition settled :: "(nat \<Rightarrow> ustr) \<Rightarrow> (nat \<Rightarrow> bool) \<Rightarrow> ustr \<Rightarrow> bool" where
  "settled U W t =
     (never quotes_matcher t \<and> never ref_span_matcher t \<and> never ref_self_matcher t
      \<and> never tag_matcher t
      \<and> never_word W (u ''la-lat'') None t \<and> never_word W (u ''la-med'') None t
      \<and> never_word W (u ''la-new'') None t
      \<and> never displaced_matcher t \<and> collapse_spaces t = t \<and> strip_leading_colon t = t
      \<and> never paren_matcher t \<and> never comma_matcher t \<and> never trailing_matcher t
      \<and> capitalize U t = t)"

lemma re_sub_never: "never m t \<Longrightarrow> re_sub m t = t"
  by (induction t) simp_all

lemma sub_word_never: "never_word W lit prev t \<Longrightarrow> sub_word W lit rep prev t = t"
  by (induction t arbitrary: prev) auto

lemma scrub_settled: "settled U W t \<Longrightarrow> scrub U W t = t"
  by (simp add: settled_def scrub_def re_sub_never sub_word_never)

text \<open>
  The white-space normal form that \<open>collapse_spaces\<close> produces: every white-space
  character is one space followed by a character that is not white space (\<open>spaced\<close>),
  and the text does not start with white space. \<open>spaced0\<close> allows a space at the end.
\<close>

fun spaced :: "ustr \<Rightarrow> bool" where
  "spaced [] = True"
| "spaced (c # cs) =
     ((if py_isspace c then c = SPACE \<and> (case cs of [] \<Rightarrow> False | d # _ \<Rightarrow> \<not> py_isspace d)
       else True) \<and> spaced cs)"

fun spaced0 :: "ustr \<Rightarrow> bool" where
  "spaced0 [] = True"
| "spaced0 (c # cs) =
     ((if py_isspace c then c = SPACE \<and> (case cs of [] \<Rightarrow> True | d # _ \<Rightarrow> \<not> py_isspace d)
       else True) \<and> spaced0 cs)"

definition ws_normal :: "ustr \<Rightarrow> bool" where
  "ws_normal t = (spaced t \<and> (case t of [] \<Rightarrow> True | c # _ \<Rightarrow> \<not> py_isspace c))"

lemma isspace_SPACE: "py_isspace SPACE"
  by (simp add: py_isspace_def SPACE_def)

lemma re_sub_spaced: "spaced t \<Longrightarrow> re_sub space_matcher t = t"
proof (induction t)
  case Nil
  then show ?case by simp
next
  case (Cons c cs)
  show ?case
  proof (cases "py_isspace c")
    case True
    then obtain d r where cs: "cs = d # r" "\<not> py_isspace d" and c: "c = SPACE"
      using Cons.prems by (cases cs) auto
    have "space_matcher (c # cs) = Some ([SPACE], cs)"
      using True cs by (simp add: space_matcher_def)
    then show ?thesis using Cons c by simp
  next
    case False
    then have "space_matcher (c # cs) = None" by (simp add: space_matcher_def)
    then show ?thesis using Cons by simp
  qed
qed

lemma spaced_last: "spaced t \<Longrightarrow> t \<noteq> [] \<Longrightarrow> \<not> py_isspace (last t)"
  by (induction t) (auto split: list.splits if_splits)

lemma strip_ws_normal: "ws_normal t \<Longrightarrow> py_strip t = t"
proof (cases t)
  case Nil
  then show ?thesis by (simp add: py_strip_def strip_by_def)
next
  case (Cons c cs)
  assume n: "ws_normal t"
  have h: "\<not> py_isspace c" using n Cons by (simp add: ws_normal_def)
  have l: "\<not> py_isspace (last t)" using spaced_last n Cons by (simp add: ws_normal_def)
  have "hd (rev t) = last t" using Cons by (simp add: hd_rev)
  then have "dropWhile py_isspace (rev t) = rev t" using l Cons by (cases "rev t") auto
  then show ?thesis using h Cons by (simp add: py_strip_def strip_by_def)
qed

lemma collapse_ws_normal: "ws_normal t \<Longrightarrow> collapse_spaces t = t"
  by (simp add: collapse_spaces_def re_sub_spaced strip_ws_normal ws_normal_def)


lemma re_sub_space_head:
  "\<not> py_isspace d \<Longrightarrow> re_sub space_matcher (d # r) = d # re_sub space_matcher r"
  by (simp add: space_matcher_def)

lemma hd_dropWhile_space:
  "dropWhile py_isspace cs = d # r \<Longrightarrow> \<not> py_isspace d"
  using hd_dropWhile[of py_isspace cs] by auto

lemma spaced0_re_sub: "spaced0 (re_sub space_matcher x)"
proof (induction x rule: length_induct)
  case (1 x)
  show ?case
  proof (cases x)
    case Nil
    then show ?thesis by simp
  next
    case (Cons c cs)
    show ?thesis
    proof (cases "py_isspace c")
      case True
      let ?rest = "dropWhile py_isspace cs"
      have sh: "length ?rest < length x" using Cons
        by (simp add: length_dropWhile_le le_imp_less_Suc)
      have out: "re_sub space_matcher x = SPACE # re_sub space_matcher ?rest"
        using True Cons sh by (simp add: space_matcher_def)
      have ih: "spaced0 (re_sub space_matcher ?rest)" using 1 sh by blast
      show ?thesis
      proof (cases ?rest)
        case Nil
        show ?thesis unfolding out Nil by (simp add: isspace_SPACE)
      next
        case (Cons d r)
        have nd: "\<not> py_isspace d" using Cons by (rule hd_dropWhile_space)
        have hd: "re_sub space_matcher (d # r) = d # re_sub space_matcher r"
          using nd by (rule re_sub_space_head)
        show ?thesis unfolding out Cons hd using ih[unfolded Cons hd] nd
          by (simp add: isspace_SPACE del: re_sub.simps)
      qed
    next
      case False
      have ih: "spaced0 (re_sub space_matcher cs)" using 1 Cons by simp
      have hd: "re_sub space_matcher (c # cs) = c # re_sub space_matcher cs"
        using False by (rule re_sub_space_head)
      show ?thesis unfolding Cons hd using ih False by simp
    qed
  qed
qed

lemma rstrip_Cons:
  "rev (dropWhile P (rev (c # cs))) =
     (if \<forall>x \<in> set cs. P x then (if P c then [] else [c])
      else c # rev (dropWhile P (rev cs)))"
  by (simp add: dropWhile_append)

lemma rstrip_head:
  "\<not> P d \<Longrightarrow> \<exists>r'. rev (dropWhile P (rev (d # r))) = d # r'"
  by (simp only: rstrip_Cons) auto

lemma spaced_rstrip: "spaced0 z \<Longrightarrow> spaced (rev (dropWhile py_isspace (rev z)))"
proof (induction z)
  case Nil
  then show ?case by simp
next
  case (Cons c cs)
  have ih: "spaced (rev (dropWhile py_isspace (rev cs)))" using Cons by simp
  show ?case
  proof (cases "\<forall>x \<in> set cs. py_isspace x")
    case True
    then show ?thesis by (simp only: rstrip_Cons) simp
  next
    case False
    have r: "rev (dropWhile py_isspace (rev (c # cs))) = c # rev (dropWhile py_isspace (rev cs))"
      using False by (simp only: rstrip_Cons) simp
    show ?thesis
    proof (cases "py_isspace c")
      case sp: True
      from False obtain d r where cs: "cs = d # r" by (cases cs) auto
      have nd: "\<not> py_isspace d" and c: "c = SPACE" using Cons.prems sp cs by simp_all
      obtain r' where "rev (dropWhile py_isspace (rev cs)) = d # r'"
        using rstrip_head[where P = py_isspace, OF nd] cs by blast
      then show ?thesis using r ih c nd sp by simp
    next
      case nsp: False
      then show ?thesis using r ih by simp
    qed
  qed
qed

lemma spaced0_dropWhile: "spaced0 y \<Longrightarrow> spaced0 (dropWhile P y)"
  by (induction y) auto

lemma ws_normal_collapse: "ws_normal (collapse_spaces x)"
proof -
  let ?z = "dropWhile py_isspace (re_sub space_matcher x)"
  have z0: "spaced0 ?z" by (simp add: spaced0_dropWhile spaced0_re_sub)
  have sp: "spaced (rev (dropWhile py_isspace (rev ?z)))" using z0 by (rule spaced_rstrip)
  have c: "collapse_spaces x = rev (dropWhile py_isspace (rev ?z))"
    by (simp add: collapse_spaces_def py_strip_def strip_by_def)
  show ?thesis
  proof (cases ?z)
    case Nil
    have e: "rev (dropWhile py_isspace (rev ?z)) = []" unfolding Nil by simp
    show ?thesis unfolding c ws_normal_def e by simp
  next
    case (Cons d r)
    have nd: "\<not> py_isspace d" using Cons by (rule hd_dropWhile_space)
    obtain r' where r': "rev (dropWhile py_isspace (rev (d # r))) = d # r'"
      using rstrip_head[where P = py_isspace, OF nd] by blast
    have e: "rev (dropWhile py_isspace (rev ?z)) = d # r'" unfolding Cons by (rule r')
    show ?thesis unfolding c ws_normal_def e using sp[unfolded e] nd by simp
  qed
qed


lemma trailing_matcher_Some: "trailing_matcher s = Some p \<Longrightarrow> p = ([], [])"
  by (auto simp: trailing_matcher_def split: list.splits if_splits)

lemma trailing_matcher_space:
  "py_isspace c \<Longrightarrow> trailing_matcher (c # cs) = trailing_matcher cs"
  by (simp add: trailing_matcher_def)

lemma re_sub_trailing_Cons:
  "re_sub trailing_matcher (c # cs) =
     (if trailing_matcher (c # cs) = None then c # re_sub trailing_matcher cs else [])"
proof (cases "trailing_matcher (c # cs)")
  case None
  then show ?thesis by simp
next
  case (Some p)
  then have "p = ([], [])" by (rule trailing_matcher_Some)
  then show ?thesis using Some by simp
qed

lemma spaced_trailing: "spaced e \<Longrightarrow> spaced (re_sub trailing_matcher e)"
proof (induction e)
  case Nil
  then show ?case by simp
next
  case (Cons c cs)
  have ih: "spaced (re_sub trailing_matcher cs)" using Cons by simp
  show ?case
  proof (cases "trailing_matcher (c # cs) = None")
    case False
    then show ?thesis by (simp only: re_sub_trailing_Cons) simp
  next
    case True
    have out: "re_sub trailing_matcher (c # cs) = c # re_sub trailing_matcher cs"
      using True by (simp only: re_sub_trailing_Cons) simp
    show ?thesis
    proof (cases "py_isspace c")
      case sp: True
      then obtain d r where cs: "cs = d # r" and nd: "\<not> py_isspace d" and c: "c = SPACE"
        using Cons.prems by (cases cs) auto
      have "trailing_matcher (d # r) = None"
        using True trailing_matcher_space[OF sp, of cs] cs by simp
      then have hd: "re_sub trailing_matcher (d # r) = d # re_sub trailing_matcher r"
        by (simp only: re_sub_trailing_Cons) simp
      have out2: "re_sub trailing_matcher (c # d # r) = c # d # re_sub trailing_matcher r"
        using out[unfolded cs] hd by (simp del: re_sub.simps)
      show ?thesis unfolding cs out2 using ih[unfolded cs hd] c nd sp
        by (simp del: re_sub.simps)
    next
      case False
      then show ?thesis unfolding out using ih by (simp del: re_sub.simps)
    qed
  qed
qed

lemma ws_normal_trailing: "ws_normal e \<Longrightarrow> ws_normal (re_sub trailing_matcher e)"
proof (cases e)
  case Nil
  then show ?thesis by (simp add: ws_normal_def)
next
  case (Cons c cs)
  assume n: "ws_normal e"
  have sp: "spaced (re_sub trailing_matcher e)" using n spaced_trailing by (simp add: ws_normal_def)
  have nc: "\<not> py_isspace c" using n Cons by (simp add: ws_normal_def)
  show ?thesis
  proof (cases "trailing_matcher (c # cs) = None")
    case True
    have out: "re_sub trailing_matcher e = c # re_sub trailing_matcher cs"
      unfolding Cons using True by (simp only: re_sub_trailing_Cons) simp
    show ?thesis unfolding ws_normal_def using sp nc unfolding out by simp
  next
    case False
    have out: "re_sub trailing_matcher e = []"
      unfolding Cons using False by (simp only: re_sub_trailing_Cons) simp
    show ?thesis unfolding ws_normal_def out by simp
  qed
qed

text \<open>What the scrubber needs of \<open>str.upper\<close> beyond ASCII: the upper case of a character
  that is not white space is not empty, has no white space, and starts with a character
  that is its own upper case.\<close>

definition upper_table_ok :: "(nat \<Rightarrow> ustr) \<Rightarrow> bool" where
  "upper_table_ok U =
     (\<forall>c. 128 \<le> c \<and> \<not> py_isspace c \<longrightarrow>
        U c \<noteq> [] \<and> list_all (\<lambda>d. \<not> py_isspace d) (U c)
        \<and> py_upper U (hd (U c)) = [hd (U c)])"

lemma upper_ascii_not_space: "97 \<le> c \<Longrightarrow> c \<le> 122 \<Longrightarrow> \<not> py_isspace (c - 32)"
  unfolding py_isspace_def by arith

lemma py_upper_ok:
  assumes "upper_table_ok U" and "\<not> py_isspace c"
  shows "\<exists>d ds. py_upper U c = d # ds \<and> \<not> py_isspace d
           \<and> list_all (\<lambda>x. \<not> py_isspace x) ds \<and> py_upper U d = [d]"
proof (cases "c < 128")
  case True
  show ?thesis
  proof (cases "97 \<le> c \<and> c \<le> 122")
    case lower: True
    have 1: "py_upper U c = [c - 32]" using True lower by (auto simp: py_upper_def)
    have 2: "\<not> py_isspace (c - 32)" using lower by (simp add: upper_ascii_not_space)
    have 3: "py_upper U (c - 32) = [c - 32]" using lower by (auto simp: py_upper_def)
    show ?thesis using 1 2 3 by simp
  next
    case other: False
    have 1: "py_upper U c = [c]" using True other by (auto simp: py_upper_def)
    show ?thesis using 1 assms(2) by simp
  qed
next
  case False
  then have u: "py_upper U c = U c" by (simp add: py_upper_def)
  have ok: "U c \<noteq> []" "list_all (\<lambda>d. \<not> py_isspace d) (U c)" "py_upper U (hd (U c)) = [hd (U c)]"
    using assms False by (simp_all add: upper_table_ok_def)
  then obtain d ds where "U c = d # ds" by (cases "U c") auto
  then show ?thesis using ok u by simp
qed

lemma spaced_append: "list_all (\<lambda>x. \<not> py_isspace x) a \<Longrightarrow> spaced r \<Longrightarrow> spaced (a @ r)"
  by (induction a) auto

lemma capitalize_normal:
  assumes "upper_table_ok U" and "ws_normal e"
  shows "ws_normal (capitalize U e) \<and> capitalize U (capitalize U e) = capitalize U e"
proof (cases e)
  case Nil
  then show ?thesis by (simp add: capitalize_def ws_normal_def)
next
  case (Cons c r)
  have nc: "\<not> py_isspace c" and sr: "spaced r"
    using assms(2) Cons by (simp_all add: ws_normal_def)
  obtain d ds where up: "py_upper U c = d # ds" "\<not> py_isspace d"
      "list_all (\<lambda>x. \<not> py_isspace x) ds" "py_upper U d = [d]"
    using py_upper_ok[OF assms(1) nc] by blast
  have cap: "capitalize U e = d # ds @ r" using Cons up(1) by (simp add: capitalize_def)
  have "spaced (ds @ r)" using up(3) sr by (rule spaced_append)
  then show ?thesis unfolding cap using up(2,4) by (simp add: ws_normal_def capitalize_def)
qed

lemma scrub_shape: "\<exists>e. ws_normal e \<and> scrub U W s = capitalize U e"
  unfolding scrub_def Let_def using ws_normal_trailing[OF ws_normal_collapse] by blast

text \<open>No deleting or replacing rule of the scrubber matches in a text.\<close>

definition rules_quiet :: "(nat \<Rightarrow> bool) \<Rightarrow> ustr \<Rightarrow> bool" where
  "rules_quiet W t =
     (never quotes_matcher t \<and> never ref_span_matcher t \<and> never ref_self_matcher t
      \<and> never tag_matcher t
      \<and> never_word W (u ''la-lat'') None t \<and> never_word W (u ''la-med'') None t
      \<and> never_word W (u ''la-new'') None t
      \<and> never displaced_matcher t \<and> strip_leading_colon t = t
      \<and> never paren_matcher t \<and> never comma_matcher t \<and> never trailing_matcher t)"

lemma scrub_output_settled:
  assumes "upper_table_ok U" and "rules_quiet W (scrub U W s)"
  shows "settled U W (scrub U W s)"
proof -
  obtain e where e: "ws_normal e" "scrub U W s = capitalize U e"
    using scrub_shape by blast
  have "ws_normal (scrub U W s)" "capitalize U (scrub U W s) = scrub U W s"
    using capitalize_normal[OF assms(1) e(1)] e(2) by simp_all
  then show ?thesis
    using assms(2) by (simp add: settled_def rules_quiet_def collapse_ws_normal)
qed

text \<open>
  C2 (amended). Applying the scrubber to its own output is a no-op whenever none of the
  deleting or replacing rules matches in that output again; the white-space rule and the
  capital first letter never change an output.
\<close>

theorem scrub_idempotent_when_quiet:
  "upper_table_ok U \<Longrightarrow> rules_quiet W (scrub U W s) \<Longrightarrow>
   scrub U W (scrub U W s) = scrub U W s"
  by (rule scrub_settled) (rule scrub_output_settled)

theorem scrub_idempotent_when_quiet_witness:
  "upper_table_ok plain_upper
   \<and> rules_quiet plain_word
       (scrub plain_upper plain_word (u '': Du *latin* *chaos*  (kh), ,  puis ( ) <i>grec</i> ;''))
   \<and> scrub plain_upper plain_word (u '': Du *latin* *chaos*  (kh), ,  puis ( ) <i>grec</i> ;'')
       = u ''Du *latin* *chaos* (kh), puis grec''
   \<and> scrub plain_upper plain_word
       (scrub plain_upper plain_word (u '': Du *latin* *chaos*  (kh), ,  puis ( ) <i>grec</i> ;''))
       = scrub plain_upper plain_word (u '': Du *latin* *chaos*  (kh), ,  puis ( ) <i>grec</i> ;'')"
proof -
  have v: "scrub plain_upper plain_word (u '': Du *latin* *chaos*  (kh), ,  puis ( ) <i>grec</i> ;'')
       = u ''Du *latin* *chaos* (kh), puis grec''"
    by (simp add: scrub_eval)
  have t: "upper_table_ok plain_upper"
    by (simp add: upper_table_ok_def plain_upper_def py_upper_def)
  have h: "rules_quiet plain_word
     (scrub plain_upper plain_word (u '': Du *latin* *chaos*  (kh), ,  puis ( ) <i>grec</i> ;''))"
    unfolding v by (simp add: rules_quiet_def scrub_eval)
  show ?thesis
    using t h v scrub_idempotent_when_quiet[OF t h] by simp
qed

text \<open>
  C4. When the section is found and resolved and the scrubbed string is empty or has at
  most 10 characters, \<open>fetch_etymology_parse_api\<close> returns \<open>None\<close>.
\<close>

theorem quality_gate:
  "scrubbed_etymology U W CI wikitext = Some (Inr (Some etymology)) \<Longrightarrow>
   etymology = [] \<or> length etymology \<le> 10 \<Longrightarrow>
   fetch_etymology_parse_api U W CI wikitext = Some None"
  by (auto simp: fetch_etymology_parse_api_def)

theorem quality_gate_witness:
  "scrubbed_etymology plain_upper plain_word plain_ci
     (u ''=== {{S|'' @ [233] @ u ''tymologie}} ===\<newline>: {{'' @ etyl @ u ''|la|fr}}\<newline>=== {{S|nom}} ===\<newline>'')
     = Some (Inr (Some (u ''*latin*'')))
   \<and> (u ''*latin*'' = [] \<or> length (u ''*latin*'') \<le> 10)
   \<and> fetch_etymology_parse_api plain_upper plain_word plain_ci
     (u ''=== {{S|'' @ [233] @ u ''tymologie}} ===\<newline>: {{'' @ etyl @ u ''|la|fr}}\<newline>=== {{S|nom}} ===\<newline>'')
     = Some None"
proof -
  have h1: "scrubbed_etymology plain_upper plain_word plain_ci
     (u ''=== {{S|'' @ [233] @ u ''tymologie}} ===\<newline>: {{'' @ etyl @ u ''|la|fr}}\<newline>=== {{S|nom}} ===\<newline>'')
     = Some (Inr (Some (u ''*latin*'')))"
    by (simp add: scrubbed_etymology_def section_eval resolve_eval tmpl_eval scrub_eval link_eval)
  have h2: "u ''*latin*'' = [] \<or> length (u ''*latin*'') \<le> 10"
    by (simp add: u_simps)
  show ?thesis using h1 h2 quality_gate[OF h1 h2] by simp
qed

section \<open>Termination of the fixpoint resolver\<close>

text \<open>
  Every call of \<open>replace_template\<close> on a match returns normally, so a pass is a
  substitution with a total replacement: \<open>pass fragment\<close>.
\<close>

definition fragment :: "ustr \<Rightarrow> ustr" where
  "fragment m = (case parse_wiki_template m of Inl e \<Rightarrow> [] | Inr r \<Rightarrow> r)"

definition pure_matcher :: "(ustr \<Rightarrow> ustr) \<Rightarrow> ustr \<Rightarrow> (ustr \<times> ustr) option" where
  "pure_matcher g s =
     (case match_template s of
        None \<Rightarrow> None
      | Some (inner, rest) \<Rightarrow> Some (g (u ''{{'' @ inner @ u ''}}''), rest))"

definition pass :: "(ustr \<Rightarrow> ustr) \<Rightarrow> ustr \<Rightarrow> ustr" where
  "pass g s = re_sub (pure_matcher g) s"

text \<open>
  The height of the matches of a text: for a match that starts with \<open>d\<close> braces open,
  \<open>d + 2\<close>; the largest one, or \<open>0\<close> when nothing matches.
\<close>

fun peak :: "nat \<Rightarrow> ustr \<Rightarrow> nat" where
  "peak d [] = 0"
| "peak d (c # cs) =
     max (if match_template (c # cs) = None then 0 else d + 2) (peak (step_depth d c) cs)"

text \<open>
  The same matches found by an automaton that reads the text once: \<open>Q1\<close> after one
  opening brace, \<open>Q2a\<close> after two, \<open>Q2b\<close> in the brace-free run, \<open>Q3\<close> after the first
  closing brace. \<open>pending_ok\<close> bounds by \<open>B\<close> the height of a match that the automaton has
  begun on the output of a pass, where the input of the pass continues with \<open>s\<close>.
\<close>

datatype scan_state = Q0 | Q1 | Q2a | Q2b | Q3

definition delta :: "scan_state \<Rightarrow> nat \<Rightarrow> scan_state" where
  "delta q c =
     (if c = LBRACE then (case q of Q0 \<Rightarrow> Q1 | Q1 \<Rightarrow> Q2a | Q2a \<Rightarrow> Q2a | Q2b \<Rightarrow> Q1 | Q3 \<Rightarrow> Q1)
      else if c = RBRACE then (case q of Q2a \<Rightarrow> Q3 | Q2b \<Rightarrow> Q3 | _ \<Rightarrow> Q0)
      else (case q of Q2a \<Rightarrow> Q2b | Q2b \<Rightarrow> Q2b | _ \<Rightarrow> Q0))"

fun auto_peak :: "scan_state \<Rightarrow> nat \<Rightarrow> ustr \<Rightarrow> nat" where
  "auto_peak q d [] = 0"
| "auto_peak q d (c # cs) =
     max (if q = Q3 \<and> c = RBRACE then d + 1 else 0) (auto_peak (delta q c) (step_depth d c) cs)"

fun pending_ok :: "scan_state \<Rightarrow> nat \<Rightarrow> ustr \<Rightarrow> nat \<Rightarrow> bool" where
  "pending_ok Q0 d s B = True"
| "pending_ok Q1 d s B = (d + 1 \<le> B \<or> match_template (LBRACE # s) = None)"
| "pending_ok Q2a d s B =
     (1 \<le> d \<and> (d \<le> B \<or> close_template s = None)
      \<and> (d + 1 \<le> B \<or> match_template (LBRACE # s) = None))"
| "pending_ok Q2b d s B = (1 \<le> d \<and> (d \<le> B \<or> close_template s = None))"
| "pending_ok Q3 d s B = (d + 1 \<le> B \<or> (case s of [] \<Rightarrow> True | c # _ \<Rightarrow> c \<noteq> RBRACE))"


lemma brace_neq: "LBRACE \<noteq> RBRACE" "RBRACE \<noteq> LBRACE"
  by (simp_all add: ch)

lemma close_template_Some:
  "close_template r = Some (inner, rest) \<Longrightarrow> r = inner @ RBRACE # RBRACE # rest \<and> brace_free inner"
proof (induction r arbitrary: inner)
  case Nil
  then show ?case by simp
next
  case (Cons c cs)
  show ?case
  proof (cases "c = RBRACE")
    case True
    then show ?thesis using Cons.prems
      by (cases cs) (simp_all add: brace_free_simps split: if_splits)
  next
    case False
    show ?thesis
    proof (cases "c = LBRACE")
      case True
      then show ?thesis using Cons.prems False by simp
    next
      case nl: False
      obtain i where i: "close_template cs = Some (i, rest)" "inner = c # i"
        using Cons.prems False nl by (simp split: option.splits prod.splits)
      show ?thesis using Cons.IH[OF i(1)] i(2) False nl by (simp add: brace_free_simps)
    qed
  qed
qed


lemma match_template_Some:
  "match_template s = Some (inner, rest) \<Longrightarrow>
   s = LBRACE # LBRACE # inner @ RBRACE # RBRACE # rest \<and> brace_free inner"
proof (cases s)
  case Nil
  assume "match_template s = Some (inner, rest)"
  then show ?thesis using Nil by simp
next
  case (Cons a s')
  assume m: "match_template s = Some (inner, rest)"
  show ?thesis
  proof (cases s')
    case Nil
    then show ?thesis using m Cons by simp
  next
    case (Cons b r)
    have ab: "a = LBRACE" "b = LBRACE" and cl: "close_template r = Some (inner, rest)"
      using m \<open>s = a # s'\<close> Cons by (simp_all split: if_splits)
    show ?thesis using close_template_Some[OF cl] ab \<open>s = a # s'\<close> Cons by simp
  qed
qed

lemma match_template_shorter: "match_template s = Some (inner, rest) \<Longrightarrow> length rest < length s"
  by (drule match_template_Some) simp

lemma pass_Nil: "pass g [] = []"
  by (simp add: pass_def)

lemma pass_None: "match_template (c # cs) = None \<Longrightarrow> pass g (c # cs) = c # pass g cs"
  by (simp add: pass_def pure_matcher_def)

lemma pass_Some:
  "match_template (c # cs) = Some (inner, rest) \<Longrightarrow>
   pass g (c # cs) = g (u ''{{'' @ inner @ u ''}}'') @ pass g rest"
  using match_template_shorter[of "c # cs" inner rest]
  by (simp add: pass_def pure_matcher_def)

lemma re_sub_call_pass:
  assumes "\<And>inner. brace_free inner \<Longrightarrow> repl (u ''{{'' @ inner @ u ''}}'') = Inr (g (u ''{{'' @ inner @ u ''}}''))"
  shows "re_sub_call template_matcher repl s = Inr (pass g s)"
proof (induction s rule: length_induct)
  case (1 s)
  show ?case
  proof (cases s)
    case Nil
    then show ?thesis by (simp add: pass_Nil)
  next
    case (Cons c cs)
    show ?thesis
    proof (cases "match_template (c # cs)")
      case None
      have ih: "re_sub_call template_matcher repl cs = Inr (pass g cs)"
        using 1 Cons by simp
      have tm: "template_matcher (c # cs) = None"
        using None by (simp add: template_matcher_def)
      show ?thesis using tm ih None Cons by (simp add: pass_None)
    next
      case (Some p)
      obtain inner rest where p: "p = (inner, rest)" by (cases p)
      have m: "match_template (c # cs) = Some (inner, rest)" using Some p by simp
      have sh: "length rest < length (c # cs)" using match_template_shorter[OF m] .
      have bf: "brace_free inner" using match_template_Some[OF m] by simp
      have ih: "re_sub_call template_matcher repl rest = Inr (pass g rest)"
        using 1 Cons sh by simp
      have tm: "template_matcher (c # cs) = Some (u ''{{'' @ inner @ u ''}}'', rest)"
        using m by (simp add: template_matcher_def)
      show ?thesis
        using tm sh ih assms[OF bf] Cons
        by (simp add: pass_Some[OF m])
    qed
  qed
qed

lemma replace_template_fragment:
  "brace_free inner \<Longrightarrow>
   replace_template (u ''{{'' @ inner @ u ''}}'') = Inr (fragment (u ''{{'' @ inner @ u ''}}''))
   \<and> brace_free (fragment (u ''{{'' @ inner @ u ''}}''))"
proof -
  assume "brace_free inner"
  then have "brace_free (py_strip_chars [LBRACE, RBRACE] (u ''{{'' @ inner @ u ''}}''))"
    by (simp only: strip_braces_delimited) (simp add: py_strip_chars_def brace_free_strip)
  then obtain r where "parse_wiki_template (u ''{{'' @ inner @ u ''}}'') = Inr r" "brace_free r"
    using fragment_brace_free by blast
  then show ?thesis by (simp add: replace_template_def fragment_def)
qed

lemma resolve_pass_pure: "resolve_pass s = Inr (pass fragment s)"
  unfolding resolve_pass_def
  by (rule re_sub_call_pass) (simp add: replace_template_fragment)

definition skip_state :: "scan_state \<Rightarrow> scan_state" where
  "skip_state q = (case q of Q2a \<Rightarrow> Q2b | Q2b \<Rightarrow> Q2b | _ \<Rightarrow> Q0)"

lemma depth_from_ge: "d \<le> depth_from d s"
  by (cases s) simp_all

lemma match_template_head:
  "match_template (c # cs) \<noteq> None \<Longrightarrow>
   \<exists>r. c = LBRACE \<and> cs = LBRACE # r \<and> close_template r \<noteq> None"
  by (cases cs) (auto split: if_splits)

lemma peak_le_depth: "peak d s \<le> depth_from d s"
proof (induction s arbitrary: d)
  case Nil
  then show ?case by simp
next
  case (Cons c cs)
  have tl: "peak (step_depth d c) cs \<le> depth_from d (c # cs)"
    using Cons[of "step_depth d c"] by simp
  show ?case
  proof (cases "match_template (c # cs) = None")
    case True
    then show ?thesis using tl by simp
  next
    case False
    then obtain r where r: "c = LBRACE" "cs = LBRACE # r"
      using match_template_head by blast
    have "d + 2 \<le> depth_from (d + 2) r" by (rule depth_from_ge)
    then have "d + 2 \<le> depth_from d (c # cs)"
      using r by (simp add: step_depth_def)
    then show ?thesis using tl False by simp
  qed
qed

lemma peak_not_one: "peak d s = 0 \<or> 2 \<le> peak d s"
  by (induction s arbitrary: d) (auto simp: max_def)

lemma peak_zero_pass: "peak d s = 0 \<Longrightarrow> pass g s = s"
proof (induction s arbitrary: d)
  case Nil
  then show ?case by (simp add: pass_Nil)
next
  case (Cons c cs)
  have n: "match_template (c # cs) = None" using Cons.prems by (simp split: if_splits)
  have "peak (step_depth d c) cs = 0" using Cons.prems by simp
  then show ?case using Cons.IH n by (simp add: pass_None)
qed

lemma peak_append: "peak (foldl step_depth d a) b \<le> peak d (a @ b)"
proof (induction a arbitrary: d)
  case Nil
  then show ?case by simp
next
  case (Cons c a)
  have "peak (foldl step_depth (step_depth d c) a) b \<le> peak (step_depth d c) (a @ b)"
    by (rule Cons)
  then show ?case by simp
qed

lemma foldl_brace_free: "brace_free a \<Longrightarrow> foldl step_depth d a = d"
  by (induction a arbitrary: d) (auto simp: brace_free_simps step_depth_def)

lemma peak_after_match:
  assumes "match_template s = Some (inner, rest)"
  shows "peak d rest \<le> peak d s" and "d + 2 \<le> peak d s"
proof -
  have s: "s = (LBRACE # LBRACE # inner @ [RBRACE, RBRACE]) @ rest" and bf: "brace_free inner"
    using match_template_Some[OF assms] by simp_all
  have "foldl step_depth d (LBRACE # LBRACE # inner @ [RBRACE, RBRACE]) = d"
    using bf by (simp add: foldl_brace_free step_depth_def brace_neq)
  then show "peak d rest \<le> peak d s"
    using peak_append[of d "LBRACE # LBRACE # inner @ [RBRACE, RBRACE]" rest] s by simp
  show "d + 2 \<le> peak d s"
    using assms by (cases s) auto
qed

lemma auto_peak_skip:
  "brace_free f \<Longrightarrow>
   auto_peak q d (f @ t) = auto_peak (if f = [] then q else skip_state q) d t"
proof (induction f arbitrary: q)
  case Nil
  then show ?case by simp
next
  case (Cons c f)
  have c: "c \<noteq> LBRACE" "c \<noteq> RBRACE" and bf: "brace_free f"
    using Cons.prems by (simp_all add: brace_free_simps)
  have d: "delta q c = skip_state q" using c by (simp add: delta_def skip_state_def)
  have sd: "step_depth d c = d" using c by (simp add: step_depth_def)
  have idem: "skip_state (skip_state q) = skip_state q"
    by (cases q) (simp_all add: skip_state_def)
  show ?case using Cons.IH[OF bf, of "skip_state q"] c d sd idem by simp
qed

lemma close_auto:
  "close_template r \<noteq> None \<Longrightarrow> q = Q2a \<or> q = Q2b \<Longrightarrow> 1 \<le> d \<Longrightarrow> d \<le> auto_peak q d r"
proof (induction r arbitrary: q)
  case Nil
  then show ?case by simp
next
  case (Cons c cs)
  show ?case
  proof (cases "c = RBRACE")
    case True
    then obtain r' where cs: "cs = RBRACE # r'"
      using Cons.prems(1) by (cases cs) (auto split: if_splits)
    have "delta q RBRACE = Q3" using Cons.prems(2) by (auto simp: delta_def brace_neq)
    then show ?thesis using True cs Cons.prems(3) by (simp add: step_depth_def brace_neq)
  next
    case False
    then have nl: "c \<noteq> LBRACE" and rec: "close_template cs \<noteq> None"
      using Cons.prems(1) by (auto split: if_splits option.splits)
    have dq: "delta q c = Q2b" using Cons.prems(2) False nl by (auto simp: delta_def)
    have "d \<le> auto_peak Q2b d cs" using Cons.IH[OF rec _ Cons.prems(3), of Q2b] by simp
    then show ?thesis using dq False nl by (simp add: step_depth_def)
  qed
qed

lemma delta_two_open: "delta (delta q LBRACE) LBRACE = Q2a"
  by (cases q) (simp_all add: delta_def)

lemma peak_le_auto: "peak d t \<le> auto_peak q d t"
proof (induction t arbitrary: q d)
  case Nil
  then show ?case by simp
next
  case (Cons c cs)
  have tl: "peak (step_depth d c) cs \<le> auto_peak q d (c # cs)"
    using Cons[of "step_depth d c" "delta q c"] by simp
  show ?case
  proof (cases "match_template (c # cs) = None")
    case True
    then show ?thesis using tl by simp
  next
    case False
    then obtain r where r: "c = LBRACE" "cs = LBRACE # r" "close_template r \<noteq> None"
      using match_template_head by blast
    have "d + 2 \<le> auto_peak Q2a (d + 2) r"
      using close_auto[OF r(3), of Q2a "d + 2"] by simp
    then have "d + 2 \<le> auto_peak q d (c # cs)"
      using r by (simp add: delta_two_open step_depth_def)
    then show ?thesis using tl False by simp
  qed
qed

lemma close_template_simps:
  "close_template (LBRACE # r) = None"
  "close_template (RBRACE # RBRACE # r) = Some ([], r)"
  "c \<noteq> RBRACE \<Longrightarrow> close_template (RBRACE # c # r) = None"
  "close_template [RBRACE] = None"
  "c \<noteq> LBRACE \<Longrightarrow> c \<noteq> RBRACE \<Longrightarrow> (close_template (c # r) = None) = (close_template r = None)"
  by (auto simp: brace_neq split: option.splits)

lemma match_template_simps2:
  "match_template (LBRACE # LBRACE # r) = close_template r"
  "c \<noteq> LBRACE \<Longrightarrow> match_template (c # r) = None"
  "c \<noteq> LBRACE \<Longrightarrow> match_template (a # c # r) = None"
  "match_template [a] = None"
  by (cases r; simp)+

lemma pending_step:
  assumes "pending_ok q d (c # cs) B" and "match_template (c # cs) = None"
  shows "pending_ok (delta q c) (step_depth d c) cs B"
    and "q = Q3 \<and> c = RBRACE \<longrightarrow> d + 1 \<le> B"
proof -
  consider (lb) "c = LBRACE" | (rb) "c = RBRACE" | (other) "c \<noteq> LBRACE" "c \<noteq> RBRACE"
    by blast
  then show "pending_ok (delta q c) (step_depth d c) cs B"
  proof cases
    case lb
    then show ?thesis using assms
      by (cases q) (auto simp: delta_def step_depth_def match_template_simps2 close_template_simps)
  next
    case rb
    then show ?thesis using assms
      by (cases q; cases cs)
         (auto simp: delta_def step_depth_def brace_neq close_template_simps split: if_splits)
  next
    case other
    then show ?thesis using assms
      by (cases q) (auto simp: delta_def step_depth_def close_template_simps)
  qed
  show "q = Q3 \<and> c = RBRACE \<longrightarrow> d + 1 \<le> B"
    using assms(1) by auto
qed

lemma auto_peak_pass:
  assumes g_bf: "\<And>inner. brace_free inner \<Longrightarrow> brace_free (g (u ''{{'' @ inner @ u ''}}''))"
  shows "pending_ok q d s B \<Longrightarrow> peak d s \<le> B + 1 \<Longrightarrow> auto_peak q d (pass g s) \<le> B"
proof (induction s arbitrary: q d rule: length_induct)
  case (1 s)
  show ?case
  proof (cases s)
    case Nil
    then show ?thesis by (simp add: pass_Nil)
  next
    case (Cons c cs)
    show ?thesis
    proof (cases "match_template (c # cs)")
      case None
      have ok: "pending_ok (delta q c) (step_depth d c) cs B"
        and fin: "q = Q3 \<and> c = RBRACE \<longrightarrow> d + 1 \<le> B"
        using pending_step[OF _ None] 1(2) Cons by simp_all
      have pk: "peak (step_depth d c) cs \<le> B + 1"
        using 1(3) Cons None by simp
      have "auto_peak (delta q c) (step_depth d c) (pass g cs) \<le> B"
        using 1(1) Cons ok pk by simp
      then show ?thesis using fin Cons None by (simp add: pass_None)
    next
      case (Some p)
      obtain inner rest where p: "p = (inner, rest)" by (cases p)
      have m: "match_template s = Some (inner, rest)" using Some p Cons by simp
      have sh: "length rest < length s" using match_template_shorter[OF m] .
      have bf: "brace_free (g (u ''{{'' @ inner @ u ''}}''))"
        using match_template_Some[OF m] g_bf by simp
      have dB: "d + 1 \<le> B" using peak_after_match(2)[OF m, of d] 1(3) by simp
      have pk: "peak d rest \<le> B + 1" using peak_after_match(1)[OF m, of d] 1(3) by simp
      let ?q = "if g (u ''{{'' @ inner @ u ''}}'') = [] then q else skip_state q"
      have ok: "pending_ok ?q d rest B"
        using dB 1(2) by (cases q) (auto simp: skip_state_def)
      have "auto_peak ?q d (pass g rest) \<le> B"
        using 1(1) sh ok pk by blast
      then show ?thesis
        using m Cons auto_peak_skip[OF bf, of q d "pass g rest"] by (simp add: pass_Some)
    qed
  qed
qed

lemma peak_pass_less:
  assumes g_bf: "\<And>inner. brace_free inner \<Longrightarrow> brace_free (g (u ''{{'' @ inner @ u ''}}''))"
    and "0 < peak d s"
  shows "peak d (pass g s) < peak d s"
proof -
  have "auto_peak Q0 d (pass g s) \<le> peak d s - 1"
    by (rule auto_peak_pass[where g = g, OF g_bf]) (use assms(2) in simp_all)
  then have "peak d (pass g s) \<le> peak d s - 1"
    using peak_le_auto[of d "pass g s" Q0] by simp
  then show ?thesis using assms(2) by simp
qed

lemma fragment_brace_free_out:
  "brace_free inner \<Longrightarrow> brace_free (fragment (u ''{{'' @ inner @ u ''}}''))"
  using replace_template_fragment by blast

lemma resolve_loop_bound:
  "prev \<noteq> Some s \<Longrightarrow>
   \<exists>r k. resolve_loop prev s n = Some (Inr (r, k)) \<and> resolve_pass r = Inr r
         \<and> k \<le> n + max 1 (peak 0 s)"
proof (induction "peak 0 s" arbitrary: s prev n rule: less_induct)
  case less
  let ?s' = "pass fragment s"
  have step: "resolve_loop prev s n = resolve_loop (Some s) ?s' (Suc n)"
    using less.prems by (subst resolve_loop.simps) (simp add: resolve_pass_pure)
  show ?case
  proof (cases "?s' = s")
    case True
    have "resolve_loop (Some s) s (Suc n) = Some (Inr (s, Suc n))"
      by (subst resolve_loop.simps) simp
    then show ?thesis using step True by (simp add: resolve_pass_pure)
  next
    case False
    have pos: "0 < peak 0 s"
      using False peak_zero_pass[of 0 s fragment] by (cases "peak 0 s") auto
    have lt: "peak 0 ?s' < peak 0 s"
      using fragment_brace_free_out pos by (rule peak_pass_less)
    have ne: "Some s \<noteq> Some ?s'" using False by simp
    obtain r k where rk: "resolve_loop (Some s) ?s' (Suc n) = Some (Inr (r, k))"
        "resolve_pass r = Inr r" "k \<le> Suc n + max 1 (peak 0 ?s')"
      using less.hyps[OF lt ne, of "Suc n"] by blast
    have "Suc (max 1 (peak 0 ?s')) \<le> max 1 (peak 0 s)"
      using lt pos peak_not_one[of 0 s] by (auto simp: max_def)
    then have "k \<le> n + max 1 (peak 0 s)" using rk(3) by simp
    then show ?thesis using step rk(1,2) by simp
  qed
qed

text \<open>
  C1 (amended). For every input the loop returns, without an exception, a text that a
  further pass leaves unchanged, and the number of passes is at most the nesting depth
  of the braces of the input, or one pass when the input has no nesting.
\<close>

theorem resolver_terminates:
  "\<exists>r k. resolve_templates s = Some (Inr (r, k)) \<and> resolve_pass r = Inr r
         \<and> k \<le> max 1 (brace_depth s)"
proof -
  obtain r k where rk: "resolve_loop None s 0 = Some (Inr (r, k))" "resolve_pass r = Inr r"
      "k \<le> 0 + max 1 (peak 0 s)"
    using resolve_loop_bound[of None s 0] by auto
  have "peak 0 s \<le> brace_depth s" by (simp add: brace_depth_def peak_le_depth)
  then have "k \<le> max 1 (brace_depth s)" using rk(3) by simp
  then show ?thesis using rk(1,2) by (auto simp: resolve_templates_def)
qed

text \<open>
  C1 (as stated, refuted). A text without templates has depth \<open>0\<close> and takes one pass;
  a single template takes two passes, the second one to see that nothing changes; and
  \<open>{{{x}}{y}}\<close>, with braces nested three deep, takes three passes.
\<close>

theorem passes_exceed_depth_counterexample:
  "resolve_templates (u ''abc'') = Some (Inr (u ''abc'', 1))
   \<and> brace_depth (u ''abc'') = 0
   \<and> \<not> (1 \<le> brace_depth (u ''abc''))
   \<and> resolve_templates (u ''{{date}}'') = Some (Inr ([], 2))
   \<and> resolve_templates (u ''{{{x}}{y}}'') = Some (Inr ([], 3))
   \<and> brace_depth (u ''{{{x}}{y}}'') = 3"
  by (simp add: resolve_eval tmpl_eval str_eval brace_depth_def step_depth_def)

end
